theory Spec2Isabelle
  imports Main "HOL-Library.Multiset"
begin

section \<open>Service dicts and the errors of \<^verbatim>\<open>fig/project.py\<close>\<close>

text \<open>
  A service dict is a Python dict with the key \<^verbatim>\<open>name\<close>, the optional key
  \<^verbatim>\<open>links\<close> (a list of service names) and any further keys, which are passed on to
  the service constructor untouched. \<open>links = None\<close> says that the key is absent.
  The code reads \<^verbatim>\<open>s['name']\<close> of every dict it is given, so the key \<^verbatim>\<open>name\<close> is a
  field that is always there.

  The dicts are mutable objects shared with the caller (\<^verbatim>\<open>from_dicts\<close> deletes a key
  of them), so a list of dicts is a list of references into a store of dicts.
\<close>

type_synonym ref = nat

record 'x service_dict =
  name :: string
  links :: "string list option"
  other :: 'x

type_synonym 'x dict_store = "ref \<Rightarrow> 'x service_dict"

datatype error =
  DependencyError string
  | NoSuchService string
  | StopIteration

text \<open>\<^verbatim>\<open>s.get('links', [])\<close>; \<^verbatim>\<open>s.get('links')\<close> is true exactly when this list is not empty.\<close>

definition get_links :: "'x service_dict \<Rightarrow> string list" where
  "get_links s = (case links s of None \<Rightarrow> [] | Some ls \<Rightarrow> ls)"

section \<open>\<^verbatim>\<open>sort_service_dicts\<close>\<close>

text \<open>
  The body of \<^verbatim>\<open>for l in n['links']\<close>. \<^verbatim>\<open>next(s for s in services if l == s['name'])\<close>
  is the first dict of that name and raises \<^verbatim>\<open>StopIteration\<close> when there is none.
  \<^verbatim>\<open>linked_service not in sorted_services\<close> compares dicts by their contents.
\<close>

fun for_links ::
  "'x dict_store \<Rightarrow> ref list \<Rightarrow> ref \<Rightarrow> string list \<Rightarrow> ref list \<Rightarrow> error + ref list" where
  "for_links h services n [] sorted_services = Inr sorted_services"
| "for_links h services n (l # ls) sorted_services =
     (case find (\<lambda>s. l = name (h s)) services of
        None \<Rightarrow> Inl StopIteration
      | Some linked_service \<Rightarrow>
          if name (h n) \<in> set (get_links (h linked_service))
          then Inl (DependencyError
                 (''Circular import between '' @ name (h n) @ '' and '' @ name (h linked_service)))
          else if get_links (h linked_service) = []
                  \<and> h linked_service \<notin> set (map h sorted_services)
          then for_links h services n ls (linked_service # sorted_services)
          else for_links h services n ls sorted_services)"

text \<open>
  The \<^verbatim>\<open>while dependent_services\<close> loop: \<^verbatim>\<open>pop()\<close> takes the last element. Every
  element of \<^verbatim>\<open>dependent_services\<close> has a non-empty \<^verbatim>\<open>links\<close>, so \<^verbatim>\<open>n['links']\<close> is
  \<open>get_links\<close> there.
\<close>

function while_dependent ::
  "'x dict_store \<Rightarrow> ref list \<Rightarrow> ref list \<Rightarrow> ref list \<Rightarrow> error + ref list" where
  "while_dependent h services dependent_services sorted_services =
     (if dependent_services = [] then Inr sorted_services
      else
        let n = last dependent_services;
            dependent_services' = butlast dependent_services
        in if name (h n) \<in> set (get_links (h n))
           then Inl (DependencyError (''A service can not link to itself: '' @ name (h n)))
           else (case for_links h services n (get_links (h n)) (sorted_services @ [n]) of
                   Inl e \<Rightarrow> Inl e
                 | Inr sorted_services' \<Rightarrow>
                     while_dependent h services dependent_services' sorted_services'))"
  by pat_completeness auto
termination
  by (relation "measure (\<lambda>(h, services, dependent_services, sorted_services).
        length dependent_services)") auto

declare while_dependent.simps [simp del]

definition sort_service_dicts :: "'x dict_store \<Rightarrow> ref list \<Rightarrow> error + ref list" where
  "sort_service_dicts h services =
     (let dependent_services = filter (\<lambda>s. get_links (h s) \<noteq> []) services;
          flatten_links = concat (map (\<lambda>s. get_links (h s)) dependent_services);
          non_dependent_sevices =
            filter (\<lambda>s. name (h s) \<notin> set flatten_links \<and> \<not> get_links (h s) \<noteq> []) services
      in case while_dependent h services dependent_services [] of
           Inl e \<Rightarrow> Inl e
         | Inr sorted_services \<Rightarrow> Inr (non_dependent_sevices @ sorted_services))"


section \<open>Services and projects\<close>

text \<open>
  Modelled from the spec: the class \<^verbatim>\<open>Service\<close> of \<^verbatim>\<open>fig/service.py\<close> is no part of
  \<^verbatim>\<open>fig/project.py\<close>. A service handle is constructed from the client, the project
  name, the resolved links and the remaining keys of the service dict, exposes a
  \<^verbatim>\<open>name\<close> attribute, and is compared by identity. \<open>service_id\<close> is the identity of
  the object; the code never mutates a service, so the handle carries its fields.
\<close>

datatype ('c, 'x) service =
  Service (service_id: ref) (service_client: 'c) (service_project: string)
    (service_links: "('c, 'x) service list") (service_name: string) (service_options: 'x)

record ('c, 'x) project =
  project_name :: string
  services :: "('c, 'x) service list"
  client :: 'c

text \<open>\<^verbatim>\<open>Project.get_service\<close>: the first service of that name.\<close>

fun get_service_loop :: "('c, 'x) service list \<Rightarrow> string \<Rightarrow> error + ('c, 'x) service" where
  "get_service_loop [] nm = Inl (NoSuchService nm)"
| "get_service_loop (service # rest) nm =
     (if service_name service = nm then Inr service else get_service_loop rest nm)"

definition get_service :: "('c, 'x) project \<Rightarrow> string \<Rightarrow> error + ('c, 'x) service" where
  "get_service p nm = get_service_loop (services p) nm"

text \<open>\<^verbatim>\<open>[self.get_service(name) for name in service_names]\<close>\<close>

fun get_each :: "('c, 'x) project \<Rightarrow> string list \<Rightarrow> error + ('c, 'x) service list" where
  "get_each p [] = Inr []"
| "get_each p (nm # nms) =
     (case get_service p nm of
        Inl e \<Rightarrow> Inl e
      | Inr s \<Rightarrow> (case get_each p nms of Inl e \<Rightarrow> Inl e | Inr ss \<Rightarrow> Inr (s # ss)))"

text \<open>
  \<^verbatim>\<open>Project.get_services\<close>; \<open>None\<close> is \<^verbatim>\<open>service_names=None\<close>. \<^verbatim>\<open>s in unsorted\<close>
  compares service objects, that is, their identities.
\<close>

definition get_services ::
  "('c, 'x) project \<Rightarrow> string list option \<Rightarrow> error + ('c, 'x) service list" where
  "get_services p service_names =
     (case service_names of
        None \<Rightarrow> Inr (services p)
      | Some nms \<Rightarrow>
          if length nms = 0 then Inr (services p)
          else (case get_each p nms of
                  Inl e \<Rightarrow> Inl e
                | Inr unsorted \<Rightarrow>
                    Inr (filter (\<lambda>s. service_id s \<in> set (map service_id unsorted))
                           (services p))))"

subsection \<open>\<^verbatim>\<open>Project.from_dicts\<close> and \<^verbatim>\<open>Project.from_config\<close>\<close>

text \<open>\<^verbatim>\<open>for service_name in service_dict.get('links', []): links.append(...)\<close>\<close>

fun append_links ::
  "('c, 'x) project \<Rightarrow> string list \<Rightarrow> ('c, 'x) service list \<Rightarrow> error + ('c, 'x) service list"
  where
  "append_links p [] lnks = Inr lnks"
| "append_links p (nm # nms) lnks =
     (case get_service p nm of
        Inl e \<Rightarrow> Inl e
      | Inr s \<Rightarrow> append_links p nms (lnks @ [s]))"

text \<open>
  The loop of \<^verbatim>\<open>from_dicts\<close> over the sorted dicts. It returns the store of dicts as
  the loop leaves it, also when a lookup raises. The new service object takes the number
  of services constructed before it as its identity.
\<close>

fun from_dicts_loop ::
  "string \<Rightarrow> 'c \<Rightarrow> ref list \<Rightarrow> 'x dict_store \<Rightarrow> ('c, 'x) project
     \<Rightarrow> 'x dict_store \<times> (error + ('c, 'x) project)" where
  "from_dicts_loop nm cl [] h p = (h, Inr p)"
| "from_dicts_loop nm cl (service_dict # rest) h p =
     (case (if links (h service_dict) \<noteq> None
            then append_links p (get_links (h service_dict)) []
            else Inr []) of
        Inl e \<Rightarrow> (h, Inl e)
      | Inr lnks \<Rightarrow>
          let h' = (if links (h service_dict) \<noteq> None
                    then h(service_dict := (h service_dict)\<lparr>links := None\<rparr>)
                    else h);
              s = Service (length (services p)) cl nm lnks
                    (name (h' service_dict)) (other (h' service_dict))
          in from_dicts_loop nm cl rest h' (p\<lparr>services := services p @ [s]\<rparr>))"

definition from_dicts ::
  "string \<Rightarrow> 'x dict_store \<Rightarrow> ref list \<Rightarrow> 'c \<Rightarrow> 'x dict_store \<times> (error + ('c, 'x) project)"
  where
  "from_dicts nm h service_dicts cl =
     (case sort_service_dicts h service_dicts of
        Inl e \<Rightarrow> (h, Inl e)
      | Inr sorted_dicts \<Rightarrow>
          from_dicts_loop nm cl sorted_dicts h \<lparr>project_name = nm, services = [], client = cl\<rparr>)"

text \<open>
  \<^verbatim>\<open>from_config\<close>: \<open>config\<close> is \<^verbatim>\<open>config.items()\<close>, the keys with the dicts they map
  to. The \<^verbatim>\<open>name\<close> key of an entry is written before it is ever read, so what the
  field holds before the call stands for any entry, with or without that key.
\<close>

fun from_config_loop ::
  "(string \<times> ref) list \<Rightarrow> 'x dict_store \<Rightarrow> ref list \<Rightarrow> 'x dict_store \<times> ref list" where
  "from_config_loop [] h dicts = (h, dicts)"
| "from_config_loop ((service_name', service') # rest) h dicts =
     from_config_loop rest (h(service' := (h service')\<lparr>name := service_name'\<rparr>))
       (dicts @ [service'])"

definition from_config ::
  "string \<Rightarrow> 'x dict_store \<Rightarrow> (string \<times> ref) list \<Rightarrow> 'c
     \<Rightarrow> 'x dict_store \<times> (error + ('c, 'x) project)" where
  "from_config nm h config cl =
     (case from_config_loop config h [] of (h', dicts) \<Rightarrow> from_dicts nm h' dicts cl)"


subsection \<open>Bulk operations\<close>

text \<open>
  The methods of a service (\<^verbatim>\<open>start\<close>, \<^verbatim>\<open>stop\<close>, \<^verbatim>\<open>kill\<close>, \<^verbatim>\<open>build\<close>,
  \<^verbatim>\<open>remove_stopped\<close>, \<^verbatim>\<open>recreate_containers\<close>, \<^verbatim>\<open>can_be_built\<close>) are no part of
  \<^verbatim>\<open>fig/project.py\<close>; each is a parameter here. A method that acts on the container
  runtime takes the state \<open>'w\<close> of everything outside the project and returns the new
  state together with its result or with the exception \<open>'e\<close> it raised. A bulk operation
  returns the state it leaves behind with \<open>Inr\<close> its result, \<open>Inl (Inl e)\<close> an error of
  the project itself, or \<open>Inl (Inr e)\<close> an exception of a service method.
\<close>

type_synonym ('w, 'e, 'r) effect = "'w \<Rightarrow> ('e + 'r) \<times> 'w"

text \<open>\<^verbatim>\<open>for service in ...: service.op(**options)\<close>\<close>

fun for_services ::
  "('s \<Rightarrow> ('w, 'e, unit) effect) \<Rightarrow> 's list \<Rightarrow> ('w, 'e, unit) effect" where
  "for_services service_op [] w = (Inr (), w)"
| "for_services service_op (service # rest) w =
     (case service_op service w of
        (Inl e, w') \<Rightarrow> (Inl e, w')
      | (Inr u, w') \<Rightarrow> for_services service_op rest w')"

text \<open>What a bulk operation does once \<^verbatim>\<open>get_services\<close> has returned or raised.\<close>

definition over_services ::
  "('c, 'x) project \<Rightarrow> string list option
     \<Rightarrow> (('c, 'x) service list \<Rightarrow> ('w, 'e, 'r) effect) \<Rightarrow> ('w, error + 'e, 'r) effect" where
  "over_services p service_names body w =
     (case get_services p service_names of
        Inl e \<Rightarrow> (Inl (Inl e), w)
      | Inr selected \<Rightarrow>
          (case body selected w of
             (Inl e, w') \<Rightarrow> (Inl (Inr e), w')
           | (Inr r, w') \<Rightarrow> (Inr r, w')))"

definition start ::
  "(('c, 'x) service \<Rightarrow> 'o \<Rightarrow> ('w, 'e, unit) effect)
     \<Rightarrow> ('c, 'x) project \<Rightarrow> string list option \<Rightarrow> 'o \<Rightarrow> ('w, error + 'e, unit) effect" where
  "start service_start p service_names options =
     over_services p service_names (for_services (\<lambda>service. service_start service options))"

definition stop ::
  "(('c, 'x) service \<Rightarrow> 'o \<Rightarrow> ('w, 'e, unit) effect)
     \<Rightarrow> ('c, 'x) project \<Rightarrow> string list option \<Rightarrow> 'o \<Rightarrow> ('w, error + 'e, unit) effect" where
  "stop service_stop p service_names options =
     over_services p service_names (for_services (\<lambda>service. service_stop service options))"

definition kill ::
  "(('c, 'x) service \<Rightarrow> 'o \<Rightarrow> ('w, 'e, unit) effect)
     \<Rightarrow> ('c, 'x) project \<Rightarrow> string list option \<Rightarrow> 'o \<Rightarrow> ('w, error + 'e, unit) effect" where
  "kill service_kill p service_names options =
     over_services p service_names (for_services (\<lambda>service. service_kill service options))"

definition remove_stopped ::
  "(('c, 'x) service \<Rightarrow> 'o \<Rightarrow> ('w, 'e, unit) effect)
     \<Rightarrow> ('c, 'x) project \<Rightarrow> string list option \<Rightarrow> 'o \<Rightarrow> ('w, error + 'e, unit) effect" where
  "remove_stopped service_remove_stopped p service_names options =
     over_services p service_names
       (for_services (\<lambda>service. service_remove_stopped service options))"

text \<open>
  \<^verbatim>\<open>Project.build\<close>: \<open>log_info\<close> is \<^verbatim>\<open>log.info\<close>, which writes a line and returns.
\<close>

fun build_loop ::
  "(('c, 'x) service \<Rightarrow> bool) \<Rightarrow> (('c, 'x) service \<Rightarrow> 'o \<Rightarrow> ('w, 'e, unit) effect)
     \<Rightarrow> (string \<Rightarrow> 'w \<Rightarrow> 'w) \<Rightarrow> 'o \<Rightarrow> ('c, 'x) service list \<Rightarrow> ('w, 'e, unit) effect" where
  "build_loop can_be_built service_build log_info options [] w = (Inr (), w)"
| "build_loop can_be_built service_build log_info options (service # rest) w =
     (if can_be_built service
      then (case service_build service options w of
              (Inl e, w') \<Rightarrow> (Inl e, w')
            | (Inr u, w') \<Rightarrow> build_loop can_be_built service_build log_info options rest w')
      else build_loop can_be_built service_build log_info options rest
             (log_info (service_name service @ '' uses an image, skipping'') w))"

definition build ::
  "(('c, 'x) service \<Rightarrow> bool) \<Rightarrow> (('c, 'x) service \<Rightarrow> 'o \<Rightarrow> ('w, 'e, unit) effect)
     \<Rightarrow> (string \<Rightarrow> 'w \<Rightarrow> 'w)
     \<Rightarrow> ('c, 'x) project \<Rightarrow> string list option \<Rightarrow> 'o \<Rightarrow> ('w, error + 'e, unit) effect" where
  "build can_be_built service_build log_info p service_names options =
     over_services p service_names (build_loop can_be_built service_build log_info options)"

text \<open>
  \<^verbatim>\<open>Project.recreate_containers\<close>: the two lists grow by the containers of each
  service, every one paired with its service.
\<close>

fun recreate_loop ::
  "(('c, 'x) service \<Rightarrow> ('w, 'e, 'k list \<times> 'k list) effect)
     \<Rightarrow> ('c, 'x) service list
     \<Rightarrow> (('c, 'x) service \<times> 'k) list \<Rightarrow> (('c, 'x) service \<times> 'k) list
     \<Rightarrow> ('w, 'e, (('c, 'x) service \<times> 'k) list \<times> (('c, 'x) service \<times> 'k) list) effect" where
  "recreate_loop service_recreate [] old new w = (Inr (old, new), w)"
| "recreate_loop service_recreate (service # rest) old new w =
     (case service_recreate service w of
        (Inl e, w') \<Rightarrow> (Inl e, w')
      | (Inr (s_old, s_new), w') \<Rightarrow>
          recreate_loop service_recreate rest
            (old @ map (\<lambda>container. (service, container)) s_old)
            (new @ map (\<lambda>container. (service, container)) s_new) w')"

definition recreate_containers ::
  "(('c, 'x) service \<Rightarrow> ('w, 'e, 'k list \<times> 'k list) effect)
     \<Rightarrow> ('c, 'x) project \<Rightarrow> string list option
     \<Rightarrow> ('w, error + 'e, (('c, 'x) service \<times> 'k) list \<times> (('c, 'x) service \<times> 'k) list) effect"
  where
  "recreate_containers service_recreate p service_names =
     over_services p service_names (\<lambda>selected. recreate_loop service_recreate selected [] [])"

text \<open>
  To say on which services a method was invoked, the method is run on a state that
  also holds the list of its invocations so far.
\<close>

definition traced :: "('s \<Rightarrow> ('w, 'e, 'r) effect) \<Rightarrow> 's \<Rightarrow> ('w \<times> 's list, 'e, 'r) effect" where
  "traced service_op service = (\<lambda>(w, invoked).
     case service_op service w of (r, w') \<Rightarrow> (r, (w', invoked @ [service])))"

text \<open>The traced form of a method that takes options, and of \<^verbatim>\<open>log.info\<close>.\<close>

definition traced_with ::
  "('s \<Rightarrow> 'o \<Rightarrow> ('w, 'e, 'r) effect) \<Rightarrow> 's \<Rightarrow> 'o \<Rightarrow> ('w \<times> 's list, 'e, 'r) effect" where
  "traced_with service_op service options = traced (\<lambda>s. service_op s options) service"

definition untraced :: "('m \<Rightarrow> 'w \<Rightarrow> 'w) \<Rightarrow> 'm \<Rightarrow> 'w \<times> 's list \<Rightarrow> 'w \<times> 's list" where
  "untraced log_info msg = (\<lambda>(w, invoked). (log_info msg w, invoked))"


section \<open>Properties of lists of service dicts\<close>

definition names_of :: "'x dict_store \<Rightarrow> ref list \<Rightarrow> string list" where
  "names_of h dicts = map (\<lambda>s. name (h s)) dicts"

definition unique_names :: "'x dict_store \<Rightarrow> ref list \<Rightarrow> bool" where
  "unique_names h dicts = distinct (names_of h dicts)"

definition links_present :: "'x dict_store \<Rightarrow> ref list \<Rightarrow> bool" where
  "links_present h dicts =
     (\<forall>s \<in> set dicts. \<forall>l \<in> set (get_links (h s)). l \<in> set (names_of h dicts))"

definition no_self_link :: "'x dict_store \<Rightarrow> ref list \<Rightarrow> bool" where
  "no_self_link h dicts = (\<forall>s \<in> set dicts. name (h s) \<notin> set (get_links (h s)))"

text \<open>The link relation on names: a service's name with each name it links to.\<close>

definition link_pairs :: "'x dict_store \<Rightarrow> ref list \<Rightarrow> (string \<times> string) list" where
  "link_pairs h dicts =
     concat (map (\<lambda>s. map (\<lambda>l. (name (h s), l)) (get_links (h s))) dicts)"

definition acyclic_links :: "'x dict_store \<Rightarrow> ref list \<Rightarrow> bool" where
  "acyclic_links h dicts = acyclic (set (link_pairs h dicts))"

definition valid_specs :: "'x dict_store \<Rightarrow> ref list \<Rightarrow> bool" where
  "valid_specs h dicts \<longleftrightarrow>
     acyclic_links h dicts \<and> no_self_link h dicts
     \<and> links_present h dicts \<and> unique_names h dicts"

text \<open>
  \<open>links_first h out\<close>: every name that a dict of \<open>out\<close> links to is the name of a
  dict that stands strictly earlier in \<open>out\<close>.
\<close>

fun links_first_from :: "'x dict_store \<Rightarrow> string list \<Rightarrow> ref list \<Rightarrow> bool" where
  "links_first_from h seen [] = True"
| "links_first_from h seen (s # rest) =
     ((\<forall>l \<in> set (get_links (h s)). l \<in> set seen)
      \<and> links_first_from h (seen @ [name (h s)]) rest)"

definition links_first :: "'x dict_store \<Rightarrow> ref list \<Rightarrow> bool" where
  "links_first h out = links_first_from h [] out"

text \<open>The dicts without links that are named in a set of link names.\<close>

definition leaves :: "'x dict_store \<Rightarrow> ref list \<Rightarrow> string set \<Rightarrow> ref set" where
  "leaves h dicts ls = {b \<in> set dicts. get_links (h b) = [] \<and> name (h b) \<in> ls}"

subsection \<open>Example stores\<close>

text \<open>\<open>A\<close> without links at 0, \<open>B\<close> linking to \<open>A\<close> at 1, \<open>C\<close> linking to \<open>B\<close> at 2.\<close>

definition chain_store :: "unit dict_store" where
  "chain_store r =
     (if r = 0 then \<lparr>name = ''A'', links = None, other = ()\<rparr>
      else if r = 1 then \<lparr>name = ''B'', links = Some [''A''], other = ()\<rparr>
      else \<lparr>name = ''C'', links = Some [''B''], other = ()\<rparr>)"

text \<open>
  Two dicts named \<open>A\<close> and two named \<open>B\<close>: the first of each has no links, the second
  of each links to the other name.
\<close>

definition twins_store :: "unit dict_store" where
  "twins_store r =
     (if r = 0 then \<lparr>name = ''A'', links = None, other = ()\<rparr>
      else if r = 1 then \<lparr>name = ''B'', links = None, other = ()\<rparr>
      else if r = 2 then \<lparr>name = ''A'', links = Some [''B''], other = ()\<rparr>
      else \<lparr>name = ''B'', links = Some [''A''], other = ()\<rparr>)"

text \<open>
  Two dicts named \<open>A\<close>, the second with an empty \<^verbatim>\<open>links\<close> list, and \<open>B\<close> linking to
  \<open>A\<close>.
\<close>

definition shadow_store :: "unit dict_store" where
  "shadow_store r =
     (if r = 0 then \<lparr>name = ''A'', links = None, other = ()\<rparr>
      else if r = 1 then \<lparr>name = ''A'', links = Some [], other = ()\<rparr>
      else \<lparr>name = ''B'', links = Some [''A''], other = ()\<rparr>)"

text \<open>\<open>A\<close> without links, and \<open>B\<close> linking to \<open>A\<close> and to itself.\<close>

definition self_store :: "unit dict_store" where
  "self_store r =
     (if r = 0 then \<lparr>name = ''A'', links = None, other = ()\<rparr>
      else \<lparr>name = ''B'', links = Some [''A'', ''B''], other = ()\<rparr>)"

text \<open>\<open>A\<close> without links, and \<open>B\<close> linking to \<open>A\<close> and to a name that no dict has.\<close>

definition dangling_store :: "unit dict_store" where
  "dangling_store r =
     (if r = 0 then \<lparr>name = ''A'', links = None, other = ()\<rparr>
      else \<lparr>name = ''B'', links = Some [''A'', ''missing''], other = ()\<rparr>)"

text \<open>\<open>A\<close> and \<open>B\<close> linking to each other.\<close>

definition mutual_store :: "unit dict_store" where
  "mutual_store r =
     (if r = 0 then \<lparr>name = ''A'', links = Some [''B''], other = ()\<rparr>
      else \<lparr>name = ''B'', links = Some [''A''], other = ()\<rparr>)"

subsection \<open>Properties of projects\<close>

definition service_names_of :: "('c, 'x) project \<Rightarrow> string list" where
  "service_names_of p = map service_name (services p)"

text \<open>
  \<open>requested p nms s\<close>: \<open>s\<close> is the object that \<^verbatim>\<open>get_service\<close> returns for one
  of the names \<open>nms\<close>.
\<close>

definition requested :: "('c, 'x) project \<Rightarrow> string list \<Rightarrow> ('c, 'x) service \<Rightarrow> bool" where
  "requested p nms s =
     (\<exists>nm \<in> set nms. case get_service p nm of
                        Inl e \<Rightarrow> False
                      | Inr s' \<Rightarrow> service_id s' = service_id s)"

subsection \<open>Example projects, methods and configs\<close>

text \<open>The project that \<^verbatim>\<open>from_dicts\<close> builds from \<open>chain_store\<close>.\<close>

definition service_A :: "(unit, unit) service" where
  "service_A = Service 0 () ''p'' [] ''A'' ()"

definition service_B :: "(unit, unit) service" where
  "service_B = Service 1 () ''p'' [service_A] ''B'' ()"

definition service_C :: "(unit, unit) service" where
  "service_C = Service 2 () ''p'' [service_B] ''C'' ()"

definition chain_project :: "(unit, unit) project" where
  "chain_project =
     \<lparr>project_name = ''p'', services = [service_A, service_B, service_C], client = ()\<rparr>"

text \<open>
  Example methods on a state that counts the calls that went through: they raise on the
  service named \<open>B\<close>.
\<close>

definition flaky_op :: "(unit, unit) service \<Rightarrow> unit \<Rightarrow> (nat, string, unit) effect" where
  "flaky_op service options w =
     (if service_name service = ''B'' then (Inl ''boom'', w + 10) else (Inr (), w + 1))"

definition flaky_recreate :: "(unit, unit) service \<Rightarrow> (nat, string, nat list \<times> nat list) effect"
  where
  "flaky_recreate service w =
     (if service_name service = ''B'' then (Inl ''boom'', w + 10) else (Inr ([w], [w + 1]), w + 1))"

text \<open>\<open>B\<close> uses an image; \<^verbatim>\<open>log.info\<close> leaves the state alone.\<close>

definition is_built :: "(unit, unit) service \<Rightarrow> bool" where
  "is_built service = (service_name service \<noteq> ''B'')"

definition drop_line :: "string \<Rightarrow> nat \<Rightarrow> nat" where
  "drop_line msg w = w"

text \<open>
  Two config entries before \<^verbatim>\<open>from_config\<close>: neither has a name of its own yet, the
  second links to \<open>db\<close>. The config maps \<open>web\<close> to the second and \<open>db\<close> to the first.
\<close>

definition blank_store :: "unit dict_store" where
  "blank_store r =
     (if r = 0 then \<lparr>name = [], links = None, other = ()\<rparr>
      else \<lparr>name = [], links = Some [''db''], other = ()\<rparr>)"

definition web_config :: "(string \<times> ref) list" where
  "web_config = [(''web'', 1), (''db'', 0)]"

section \<open>The loops of \<^verbatim>\<open>sort_service_dicts\<close>\<close>

lemma while_dependent_Nil: "while_dependent h dicts [] sorted_services = Inr sorted_services"
  by (subst while_dependent.simps) simp

lemma while_dependent_snoc:
  "while_dependent h dicts (ds @ [n]) sorted_services =
     (if name (h n) \<in> set (get_links (h n))
      then Inl (DependencyError (''A service can not link to itself: '' @ name (h n)))
      else (case for_links h dicts n (get_links (h n)) (sorted_services @ [n]) of
              Inl e \<Rightarrow> Inl e
            | Inr sorted_services' \<Rightarrow> while_dependent h dicts ds sorted_services'))"
  by (subst while_dependent.simps) (simp add: Let_def)

lemma find_name_SomeD:
  "find (\<lambda>s. l = name (h s)) dicts = Some b \<Longrightarrow> b \<in> set dicts \<and> name (h b) = l"
  by (induction dicts) (auto split: if_splits)

lemma find_name_None_iff:
  "find (\<lambda>s. l = name (h s)) dicts = None \<longleftrightarrow> l \<notin> set (names_of h dicts)"
  by (induction dicts) (auto simp: names_of_def)

lemma find_name_unique:
  "unique_names h dicts \<Longrightarrow> b \<in> set dicts \<Longrightarrow>
   find (\<lambda>s. name (h b) = name (h s)) dicts = Some b"
proof (induction dicts)
  case Nil
  then show ?case by simp
next
  case (Cons a dicts)
  show ?case
  proof (cases "a = b")
    case True
    then show ?thesis by simp
  next
    case False
    with Cons.prems have b: "b \<in> set dicts" by simp
    from Cons.prems(1) have "name (h a) \<notin> (\<lambda>s. name (h s)) ` set dicts"
      by (simp add: unique_names_def names_of_def)
    with b have "name (h b) \<noteq> name (h a)"
      by (metis imageI)
    moreover from Cons.prems(1) have "unique_names h dicts"
      by (simp add: unique_names_def names_of_def)
    ultimately show ?thesis using Cons.IH b by simp
  qed
qed

lemma for_links_error_kind:
  "\<forall>l \<in> set ls. l \<in> set (names_of h dicts) \<Longrightarrow>
   for_links h dicts n ls sorted_services = Inl e \<Longrightarrow> \<exists>m. e = DependencyError m"
proof (induction ls arbitrary: sorted_services)
  case Nil
  then show ?case by simp
next
  case (Cons l ls)
  from Cons.prems(1) have "find (\<lambda>s. l = name (h s)) dicts \<noteq> None"
    by (simp add: find_name_None_iff)
  then obtain b where b: "find (\<lambda>s. l = name (h s)) dicts = Some b" by auto
  from Cons.prems(1) have rest: "\<forall>l \<in> set ls. l \<in> set (names_of h dicts)" by simp
  from Cons.prems(2) b show ?case
    using Cons.IH [OF rest] by (auto split: if_splits)
qed

lemma for_links_missing:
  "l \<in> set ls \<Longrightarrow> l \<notin> set (names_of h dicts) \<Longrightarrow>
   \<exists>e. for_links h dicts n ls sorted_services = Inl e"
proof (induction ls arbitrary: sorted_services)
  case Nil
  then show ?case by simp
next
  case (Cons k ls)
  show ?case
  proof (cases "find (\<lambda>s. k = name (h s)) dicts")
    case None
    then show ?thesis by simp
  next
    case (Some b)
    with Cons.prems have "l \<in> set ls"
      by (auto simp: find_name_None_iff [symmetric])
    from Cons.IH [OF this Cons.prems(2)] Some show ?thesis by auto
  qed
qed

lemma for_links_mutual:
  "l \<in> set ls \<Longrightarrow> find (\<lambda>s. l = name (h s)) dicts = Some b \<Longrightarrow>
   name (h n) \<in> set (get_links (h b)) \<Longrightarrow>
   \<forall>l \<in> set ls. l \<in> set (names_of h dicts) \<Longrightarrow>
   \<exists>m. for_links h dicts n ls sorted_services = Inl (DependencyError m)"
proof (induction ls arbitrary: sorted_services)
  case Nil
  then show ?case by simp
next
  case (Cons k ls)
  show ?case
  proof (cases "k = l")
    case True
    with Cons.prems(2,3) show ?thesis by simp
  next
    case False
    with Cons.prems(1) have l: "l \<in> set ls" by simp
    from Cons.prems(4) have rest: "\<forall>l \<in> set ls. l \<in> set (names_of h dicts)" by simp
    from Cons.prems(4) have "find (\<lambda>s. k = name (h s)) dicts \<noteq> None"
      by (simp add: find_name_None_iff)
    then obtain c where c: "find (\<lambda>s. k = name (h s)) dicts = Some c" by auto
    from Cons.IH [OF l Cons.prems(2,3) rest] c show ?thesis by auto
  qed
qed

lemma for_links_succeeds:
  "\<forall>l \<in> set ls. \<exists>b. find (\<lambda>s. l = name (h s)) dicts = Some b
        \<and> name (h n) \<notin> set (get_links (h b)) \<Longrightarrow>
   \<exists>out. for_links h dicts n ls sorted_services = Inr out"
  by (induction ls arbitrary: sorted_services) auto


lemma while_dependent_error_kind:
  "\<forall>d \<in> set ds. \<forall>l \<in> set (get_links (h d)). l \<in> set (names_of h dicts) \<Longrightarrow>
   while_dependent h dicts ds sorted_services = Inl e \<Longrightarrow> \<exists>m. e = DependencyError m"
proof (induction ds arbitrary: sorted_services rule: rev_induct)
  case Nil
  then show ?case by (simp add: while_dependent_Nil)
next
  case (snoc n ds)
  from snoc.prems(1) have n: "\<forall>l \<in> set (get_links (h n)). l \<in> set (names_of h dicts)"
    and ds: "\<forall>d \<in> set ds. \<forall>l \<in> set (get_links (h d)). l \<in> set (names_of h dicts)"
    by simp_all
  from snoc.prems(2) show ?case
    using for_links_error_kind [OF n] snoc.IH [OF ds]
    by (auto simp: while_dependent_snoc split: if_splits sum.splits)
qed

lemma while_dependent_self_link:
  "\<forall>d \<in> set ds. \<forall>l \<in> set (get_links (h d)). l \<in> set (names_of h dicts) \<Longrightarrow>
   d \<in> set ds \<Longrightarrow> name (h d) \<in> set (get_links (h d)) \<Longrightarrow>
   \<exists>m. while_dependent h dicts ds sorted_services = Inl (DependencyError m)"
proof (induction ds arbitrary: sorted_services rule: rev_induct)
  case Nil
  then show ?case by simp
next
  case (snoc n ds)
  from snoc.prems(1) have n: "\<forall>l \<in> set (get_links (h n)). l \<in> set (names_of h dicts)"
    and ds: "\<forall>d \<in> set ds. \<forall>l \<in> set (get_links (h d)). l \<in> set (names_of h dicts)"
    by simp_all
  show ?case
  proof (cases "name (h n) \<in> set (get_links (h n))")
    case True
    then show ?thesis by (simp add: while_dependent_snoc)
  next
    case False
    with snoc.prems(2,3) have d: "d \<in> set ds" by auto
    show ?thesis
    proof (cases "for_links h dicts n (get_links (h n)) (sorted_services @ [n])")
      case (Inl e)
      with for_links_error_kind [OF n Inl] False show ?thesis
        by (auto simp: while_dependent_snoc)
    next
      case (Inr out)
      with False snoc.IH [OF ds d snoc.prems(3), of out] show ?thesis
        by (simp add: while_dependent_snoc)
    qed
  qed
qed

lemma while_dependent_missing:
  "d \<in> set ds \<Longrightarrow> l \<in> set (get_links (h d)) \<Longrightarrow> l \<notin> set (names_of h dicts) \<Longrightarrow>
   \<exists>e. while_dependent h dicts ds sorted_services = Inl e"
proof (induction ds arbitrary: sorted_services rule: rev_induct)
  case Nil
  then show ?case by simp
next
  case (snoc n ds)
  show ?case
  proof (cases "n = d")
    case True
    with for_links_missing [OF snoc.prems(2,3), of d "sorted_services @ [d]"]
    show ?thesis by (auto simp: while_dependent_snoc)
  next
    case False
    with snoc.prems(1) have "d \<in> set ds" by simp
    from snoc.IH [OF this snoc.prems(2,3)] show ?thesis
      by (auto simp: while_dependent_snoc split: sum.splits)
  qed
qed

lemma while_dependent_mutual:
  "\<forall>d \<in> set ds. \<forall>l \<in> set (get_links (h d)). l \<in> set (names_of h dicts) \<Longrightarrow>
   a \<in> set ds \<Longrightarrow> b \<in> set ds \<Longrightarrow>
   find (\<lambda>s. name (h a) = name (h s)) dicts = Some a \<Longrightarrow>
   find (\<lambda>s. name (h b) = name (h s)) dicts = Some b \<Longrightarrow>
   name (h b) \<in> set (get_links (h a)) \<Longrightarrow> name (h a) \<in> set (get_links (h b)) \<Longrightarrow>
   \<exists>m. while_dependent h dicts ds sorted_services = Inl (DependencyError m)"
proof (induction ds arbitrary: sorted_services rule: rev_induct)
  case Nil
  then show ?case by simp
next
  case (snoc n ds)
  from snoc.prems(1) have n: "\<forall>l \<in> set (get_links (h n)). l \<in> set (names_of h dicts)"
    and ds: "\<forall>d \<in> set ds. \<forall>l \<in> set (get_links (h d)). l \<in> set (names_of h dicts)"
    by simp_all
  consider (self) "name (h n) \<in> set (get_links (h n))"
    | (a) "name (h n) \<notin> set (get_links (h n))" "n = a"
    | (b) "name (h n) \<notin> set (get_links (h n))" "n = b"
    | (other) "name (h n) \<notin> set (get_links (h n))" "n \<noteq> a" "n \<noteq> b"
    by blast
  then show ?case
  proof cases
    case self
    then show ?thesis by (simp add: while_dependent_snoc)
  next
    case a
    from for_links_mutual [OF snoc.prems(6) snoc.prems(5) snoc.prems(7), of "sorted_services @ [a]"]
      n a
    show ?thesis by (auto simp: while_dependent_snoc)
  next
    case b
    from for_links_mutual [OF snoc.prems(7) snoc.prems(4) snoc.prems(6), of "sorted_services @ [b]"]
      n b
    show ?thesis by (auto simp: while_dependent_snoc)
  next
    case other
    with snoc.prems(2,3) have ab: "a \<in> set ds" "b \<in> set ds" by auto
    show ?thesis
    proof (cases "for_links h dicts n (get_links (h n)) (sorted_services @ [n])")
      case (Inl e)
      with for_links_error_kind [OF n Inl] other(1) show ?thesis
        by (auto simp: while_dependent_snoc)
    next
      case (Inr out)
      with other(1) snoc.IH [OF ds ab snoc.prems(4-7), of out] show ?thesis
        by (simp add: while_dependent_snoc)
    qed
  qed
qed

lemma while_dependent_succeeds:
  "\<forall>d \<in> set ds. name (h d) \<notin> set (get_links (h d)) \<and>
      (\<forall>l \<in> set (get_links (h d)). \<exists>b. find (\<lambda>s. l = name (h s)) dicts = Some b
          \<and> name (h d) \<notin> set (get_links (h b))) \<Longrightarrow>
   \<exists>out. while_dependent h dicts ds sorted_services = Inr out"
proof (induction ds arbitrary: sorted_services rule: rev_induct)
  case Nil
  then show ?case by (simp add: while_dependent_Nil)
next
  case (snoc n ds)
  from snoc.prems have n: "name (h n) \<notin> set (get_links (h n))"
    and nl: "\<forall>l \<in> set (get_links (h n)). \<exists>b. find (\<lambda>s. l = name (h s)) dicts = Some b
          \<and> name (h n) \<notin> set (get_links (h b))"
    and ds: "\<forall>d \<in> set ds. name (h d) \<notin> set (get_links (h d)) \<and>
      (\<forall>l \<in> set (get_links (h d)). \<exists>b. find (\<lambda>s. l = name (h s)) dicts = Some b
          \<and> name (h d) \<notin> set (get_links (h b)))"
    by simp_all
  from for_links_succeeds [OF nl, of "sorted_services @ [n]"]
  obtain out where "for_links h dicts n (get_links (h n)) (sorted_services @ [n]) = Inr out"
    by blast
  with n snoc.IH [OF ds, of out] show ?case
    by (simp add: while_dependent_snoc)
qed


lemma unique_names_inj:
  "unique_names h dicts \<Longrightarrow> a \<in> set dicts \<Longrightarrow> b \<in> set dicts \<Longrightarrow>
   name (h a) = name (h b) \<Longrightarrow> a = b"
  unfolding unique_names_def names_of_def
  by (simp add: distinct_map inj_on_def)

lemma unique_names_distinct: "unique_names h dicts \<Longrightarrow> distinct dicts"
  unfolding unique_names_def names_of_def by (simp add: distinct_map)

lemma leaves_insert:
  assumes "unique_names h dicts" "b \<in> set dicts"
  shows "leaves h dicts (insert (name (h b)) ls) =
      (if get_links (h b) = [] then {b} else {}) \<union> leaves h dicts ls"
proof -
  have "\<And>c. c \<in> set dicts \<Longrightarrow> name (h c) = name (h b) \<Longrightarrow> c = b"
    using unique_names_inj [OF assms(1) _ assms(2)] by blast
  then have eq: "\<And>c. c \<in> set dicts \<Longrightarrow> name (h c) \<in> insert (name (h b)) ls \<longleftrightarrow>
      c = b \<or> name (h c) \<in> ls"
    by auto
  show ?thesis
  proof (rule set_eqI)
    fix c
    show "c \<in> leaves h dicts (insert (name (h b)) ls) \<longleftrightarrow>
      c \<in> (if get_links (h b) = [] then {b} else {}) \<union> leaves h dicts ls"
      using eq [of c] assms(2) by (cases "c \<in> set dicts") (auto simp: leaves_def)
  qed
qed

lemma store_mem_iff:
  assumes "unique_names h dicts" "b \<in> set dicts" "set xs \<subseteq> set dicts"
  shows "h b \<in> set (map h xs) \<longleftrightarrow> b \<in> set xs"
proof
  assume "h b \<in> set (map h xs)"
  then obtain c where c: "c \<in> set xs" "h c = h b" by auto
  with assms(3) have "c \<in> set dicts" by blast
  from unique_names_inj [OF assms(1) this assms(2)] c(2) have "c = b" by simp
  with c(1) show "b \<in> set xs" by simp
next
  assume "b \<in> set xs"
  then show "h b \<in> set (map h xs)" by simp
qed


lemma leaves_Un: "leaves h dicts (A \<union> B) = leaves h dicts A \<union> leaves h dicts B"
  unfolding leaves_def by blast

lemma leaves_empty: "leaves h dicts {} = {}"
  unfolding leaves_def by simp

lemma leaves_subset: "leaves h dicts A \<subseteq> set dicts"
  unfolding leaves_def by blast

lemma leaves_no_links: "b \<in> leaves h dicts A \<Longrightarrow> get_links (h b) = []"
  unfolding leaves_def by simp

lemma leaves_iff:
  "b \<in> leaves h dicts A \<longleftrightarrow> b \<in> set dicts \<and> get_links (h b) = [] \<and> name (h b) \<in> A"
  unfolding leaves_def by simp

lemma for_links_inv:
  assumes u: "unique_names h dicts"
  shows "set sorted_services \<subseteq> set dicts \<Longrightarrow> distinct sorted_services \<Longrightarrow>
   for_links h dicts n ls sorted_services = Inr out \<Longrightarrow>
   distinct out \<and> set out = set sorted_services \<union> leaves h dicts (set ls)"
proof (induction ls arbitrary: sorted_services)
  case Nil
  then show ?case by (simp add: leaves_empty)
next
  case (Cons l ls)
  from Cons.prems(3) obtain b where f: "find (\<lambda>s. l = name (h s)) dicts = Some b"
    by (cases "find (\<lambda>s. l = name (h s)) dicts") auto
  then have b: "b \<in> set dicts" and l: "l = name (h b)"
    using find_name_SomeD [OF f] by simp_all
  have mem: "h b \<in> set (map h sorted_services) \<longleftrightarrow> b \<in> set sorted_services"
    using u b Cons.prems(1) by (rule store_mem_iff)
  have step: "leaves h dicts (set (l # ls)) =
      (if get_links (h b) = [] then {b} else {}) \<union> leaves h dicts (set ls)"
    using leaves_insert [OF u b, of "set ls"] l by simp
  from Cons.prems(3) f have nc: "name (h n) \<notin> set (get_links (h b))"
    by (simp split: if_splits)
  show ?case
  proof (cases "get_links (h b) = [] \<and> b \<notin> set sorted_services")
    case True
    with Cons.prems(3) f mem nc
    have r: "for_links h dicts n ls (b # sorted_services) = Inr out"
      by simp
    from Cons.prems(1,2) True b
    have "set (b # sorted_services) \<subseteq> set dicts" "distinct (b # sorted_services)"
      by simp_all
    from Cons.IH [OF this r] have "distinct out"
      "set out = set (b # sorted_services) \<union> leaves h dicts (set ls)" by simp_all
    with True step show ?thesis by simp
  next
    case False
    with Cons.prems(3) f mem nc
    have r: "for_links h dicts n ls sorted_services = Inr out"
      by (simp split: if_splits)
    from Cons.IH [OF Cons.prems(1,2) r] have o: "distinct out"
      "set out = set sorted_services \<union> leaves h dicts (set ls)" by simp_all
    show ?thesis
    proof (cases "get_links (h b) = []")
      case True
      with False have "b \<in> set sorted_services" by simp
      with o step True show ?thesis by auto
    next
      case False
      with o step show ?thesis by simp
    qed
  qed
qed


lemma while_dependent_inv:
  assumes u: "unique_names h dicts"
  shows "set ds \<subseteq> set dicts \<Longrightarrow> distinct ds \<Longrightarrow> \<forall>d \<in> set ds. get_links (h d) \<noteq> [] \<Longrightarrow>
   set sorted_services \<subseteq> set dicts \<Longrightarrow> distinct sorted_services \<Longrightarrow>
   set sorted_services \<inter> set ds = {} \<Longrightarrow>
   while_dependent h dicts ds sorted_services = Inr out \<Longrightarrow>
   distinct out \<and>
   set out = set sorted_services \<union> set ds
      \<union> leaves h dicts (\<Union>d \<in> set ds. set (get_links (h d)))"
proof (induction ds arbitrary: sorted_services rule: rev_induct)
  case Nil
  then show ?case by (simp add: while_dependent_Nil leaves_empty)
next
  case (snoc n ds)
  from snoc.prems(7) obtain mid where
    fl: "for_links h dicts n (get_links (h n)) (sorted_services @ [n]) = Inr mid"
    and wd: "while_dependent h dicts ds mid = Inr out"
    by (auto simp: while_dependent_snoc split: if_splits sum.splits)
  from snoc.prems(1) have n1: "n \<in> set dicts" by simp
  from snoc.prems(6) have n2: "n \<notin> set sorted_services" by auto
  from snoc.prems(2) have n3: "n \<notin> set ds" by simp
  from snoc.prems(4,5) n1 n2
  have "set (sorted_services @ [n]) \<subseteq> set dicts" "distinct (sorted_services @ [n])"
    by simp_all
  from for_links_inv [OF u this fl]
  have mid1: "distinct mid"
    and mid2: "set mid = set sorted_services \<union> {n} \<union> leaves h dicts (set (get_links (h n)))"
    by simp_all
  have sub: "set mid \<subseteq> set dicts"
    using mid2 snoc.prems(4) n1 leaves_subset [of h dicts "set (get_links (h n))"] by auto
  have ds3: "\<forall>d \<in> set ds. get_links (h d) \<noteq> []" using snoc.prems(3) by simp
  have "set sorted_services \<inter> set ds = {}" using snoc.prems(6) by auto
  moreover have "leaves h dicts (set (get_links (h n))) \<inter> set ds = {}"
    using ds3 leaves_no_links [of _ h dicts "set (get_links (h n))"] by blast
  ultimately have disj: "set mid \<inter> set ds = {}"
    using mid2 n3 by auto
  from snoc.prems(1,2) have ds: "set ds \<subseteq> set dicts" "distinct ds" by simp_all
  from snoc.IH [OF ds ds3 sub mid1 disj wd]
  have o1: "distinct out" and o2: "set out = set mid \<union> set ds
      \<union> leaves h dicts (\<Union>d \<in> set ds. set (get_links (h d)))" by simp_all
  have "(\<Union>d \<in> set (ds @ [n]). set (get_links (h d))) =
      set (get_links (h n)) \<union> (\<Union>d \<in> set ds. set (get_links (h d)))" by auto
  then have "leaves h dicts (\<Union>d \<in> set (ds @ [n]). set (get_links (h d))) =
      leaves h dicts (set (get_links (h n)))
        \<union> leaves h dicts (\<Union>d \<in> set ds. set (get_links (h d)))"
    by (simp only: leaves_Un)
  with o1 o2 mid2 show ?case by auto
qed

lemma sort_service_dicts_set:
  assumes u: "unique_names h dicts"
    and r: "sort_service_dicts h dicts = Inr out"
  shows "distinct out \<and> set out = set dicts"
proof -
  define dep where "dep = filter (\<lambda>s. get_links (h s) \<noteq> []) dicts"
  define flat where "flat = concat (map (\<lambda>s. get_links (h s)) dep)"
  define nondep where
    "nondep = filter (\<lambda>s. name (h s) \<notin> set flat \<and> \<not> get_links (h s) \<noteq> []) dicts"
  from r obtain srt where w: "while_dependent h dicts dep [] = Inr srt"
    and out: "out = nondep @ srt"
    by (auto simp: sort_service_dicts_def Let_def dep_def flat_def nondep_def split: sum.splits)
  have d: "distinct dicts" using u by (rule unique_names_distinct)
  have "set dep \<subseteq> set dicts" "distinct dep" "\<forall>d \<in> set dep. get_links (h d) \<noteq> []"
    "set [] \<subseteq> set dicts" "distinct ([] :: ref list)" "set [] \<inter> set dep = {}"
    using d by (simp_all add: dep_def)
  from while_dependent_inv [OF u this w]
  have srt1: "distinct srt"
    and srt2: "set srt = set dep \<union> leaves h dicts (\<Union>d \<in> set dep. set (get_links (h d)))"
    by simp_all
  have flat: "set flat = (\<Union>d \<in> set dep. set (get_links (h d)))"
    by (simp add: flat_def)
  have srt3: "\<And>b. b \<in> set srt \<longleftrightarrow> b \<in> set dicts \<and>
      (get_links (h b) \<noteq> [] \<or> name (h b) \<in> set flat)"
    unfolding srt2 flat [symmetric] by (auto simp: leaves_iff dep_def)
  have nd: "\<And>b. b \<in> set nondep \<longleftrightarrow> b \<in> set dicts \<and>
      \<not> (get_links (h b) \<noteq> [] \<or> name (h b) \<in> set flat)"
    by (auto simp: nondep_def)
  have "distinct nondep" using d by (simp add: nondep_def)
  moreover have "set nondep \<inter> set srt = {}"
    using srt3 nd by blast
  moreover have "set nondep \<union> set srt = set dicts"
    using srt3 nd by blast
  ultimately show ?thesis using srt1 out by simp
qed

lemma sort_service_dicts_mset:
  "unique_names h dicts \<Longrightarrow> sort_service_dicts h dicts = Inr out \<Longrightarrow>
   mset out = mset dicts"
  using sort_service_dicts_set [of h dicts out] unique_names_distinct [of h dicts]
  by (metis set_eq_iff_mset_eq_distinct)

lemma link_pairs_mem:
  "(a, l) \<in> set (link_pairs h dicts) \<longleftrightarrow>
   (\<exists>s \<in> set dicts. a = name (h s) \<and> l \<in> set (get_links (h s)))"
  by (auto simp: link_pairs_def)

lemma acyclic_links_no_mutual:
  assumes "acyclic_links h dicts" "a \<in> set dicts" "b \<in> set dicts"
    "name (h b) \<in> set (get_links (h a))"
  shows "name (h a) \<notin> set (get_links (h b))"
proof
  assume "name (h a) \<in> set (get_links (h b))"
  with assms(3) have ba: "(name (h b), name (h a)) \<in> set (link_pairs h dicts)"
    unfolding link_pairs_mem by blast
  from assms(2,4) have ab: "(name (h a), name (h b)) \<in> set (link_pairs h dicts)"
    unfolding link_pairs_mem by blast
  have "(name (h a), name (h a)) \<in> (set (link_pairs h dicts))\<^sup>+"
    by (rule trancl_into_trancl [OF r_into_trancl [OF ab] ba])
  with assms(1) show False by (simp add: acyclic_links_def acyclic_def)
qed

lemma valid_specs_sorts:
  assumes v: "valid_specs h dicts"
  shows "\<exists>out. sort_service_dicts h dicts = Inr out"
proof -
  define dep where "dep = filter (\<lambda>s. get_links (h s) \<noteq> []) dicts"
  have "\<forall>d \<in> set dep. name (h d) \<notin> set (get_links (h d)) \<and>
      (\<forall>l \<in> set (get_links (h d)). \<exists>b. find (\<lambda>s. l = name (h s)) dicts = Some b
          \<and> name (h d) \<notin> set (get_links (h b)))"
  proof (intro ballI conjI)
    fix d assume "d \<in> set dep"
    then have d: "d \<in> set dicts" by (simp add: dep_def)
    with v show "name (h d) \<notin> set (get_links (h d))"
      by (simp add: valid_specs_def no_self_link_def)
    fix l assume l: "l \<in> set (get_links (h d))"
    with v d have "l \<in> set (names_of h dicts)"
      by (simp add: valid_specs_def links_present_def)
    then have "find (\<lambda>s. l = name (h s)) dicts \<noteq> None"
      by (simp add: find_name_None_iff)
    then obtain b where f: "find (\<lambda>s. l = name (h s)) dicts = Some b" by blast
    from find_name_SomeD [OF f] have b: "b \<in> set dicts" "name (h b) = l" by simp_all
    from v have "acyclic_links h dicts" by (simp add: valid_specs_def)
    from acyclic_links_no_mutual [OF this d b(1)] l b(2)
    have "name (h d) \<notin> set (get_links (h b))" by simp
    with f show "\<exists>b. find (\<lambda>s. l = name (h s)) dicts = Some b
          \<and> name (h d) \<notin> set (get_links (h b))" by blast
  qed
  from while_dependent_succeeds [OF this, of "[]"]
  obtain srt where "while_dependent h dicts dep [] = Inr srt" by blast
  then show ?thesis by (simp add: sort_service_dicts_def Let_def dep_def)
qed

section \<open>The claims about \<^verbatim>\<open>sort_service_dicts\<close>\<close>

text \<open>
  C1. The claim: for every valid list of service dicts (acyclic links, no self-link,
  every link target present, unique names) the returned order has, before each dict, the
  dicts that it links to; so \<open>A\<close>, \<open>B\<close> linking to \<open>A\<close> and \<open>C\<close> linking to \<open>B\<close>
  come out as \<open>A\<close>, \<open>B\<close>, \<open>C\<close> whatever their order in the input.
  The code does not do that for the input order \<open>A\<close>, \<open>B\<close>, \<open>C\<close>: this is a valid
  list, it is the last dependent dict \<open>C\<close> that is popped and appended first, \<open>B\<close> has
  links and so is not put in front of it, and the result is \<open>A\<close>, \<open>C\<close>, \<open>B\<close>.
\<close>

theorem sort_service_dicts_chain_misordered:
  "valid_specs chain_store [0, 1, 2]
   \<and> sort_service_dicts chain_store [0, 1, 2] = Inr [0, 2, 1]
   \<and> names_of chain_store [0, 2, 1] = [''A'', ''C'', ''B'']
   \<and> \<not> links_first chain_store [0, 2, 1]"
  by code_simp

text \<open>
  C3. For every valid list of service dicts (acyclic links, no self-link, every link
  target present, unique names) \<^verbatim>\<open>sort_service_dicts\<close> returns, and what it returns is
  a permutation of its input: the same dicts and the same names, each as often as in the
  input, none dropped and none twice. On the empty list it returns the empty list.
\<close>

theorem sort_service_dicts_permutation:
  "(valid_specs h dicts \<longrightarrow>
      (\<exists>out. sort_service_dicts h dicts = Inr out \<and> mset out = mset dicts
         \<and> mset (names_of h out) = mset (names_of h dicts)))
   \<and> sort_service_dicts h [] = Inr []"
proof (intro conjI impI)
  assume v: "valid_specs h dicts"
  then obtain out where out: "sort_service_dicts h dicts = Inr out"
    using valid_specs_sorts by blast
  from v have "unique_names h dicts" by (simp add: valid_specs_def)
  from sort_service_dicts_mset [OF this out] have m: "mset out = mset dicts" .
  then have "mset (names_of h out) = mset (names_of h dicts)"
    unfolding names_of_def by (metis mset_map)
  with out m show "\<exists>out. sort_service_dicts h dicts = Inr out \<and> mset out = mset dicts
         \<and> mset (names_of h out) = mset (names_of h dicts)" by blast
next
  show "sort_service_dicts h [] = Inr []"
    by (simp add: sort_service_dicts_def while_dependent_Nil)
qed

theorem sort_service_dicts_permutation_witness:
  "valid_specs chain_store [0, 1, 2]
   \<and> (\<exists>out. sort_service_dicts chain_store [0, 1, 2] = Inr out \<and> mset out = mset [0, 1, 2]
         \<and> mset (names_of chain_store out) = mset (names_of chain_store [0, 1, 2]))"
proof -
  have v: "valid_specs chain_store [0, 1, 2]" by code_simp
  with sort_service_dicts_permutation [of chain_store "[0, 1, 2]"] show ?thesis by blast
qed

text \<open>
  C4. When every link target is present and some dict of the list has its own name
  among its links, \<^verbatim>\<open>sort_service_dicts\<close> raises \<^verbatim>\<open>DependencyError\<close>.
\<close>

theorem sort_service_dicts_self_link:
  assumes "links_present h dicts" and "s \<in> set dicts"
    and "name (h s) \<in> set (get_links (h s))"
  shows "\<exists>m. sort_service_dicts h dicts = Inl (DependencyError m)"
proof -
  define dep where "dep = filter (\<lambda>s. get_links (h s) \<noteq> []) dicts"
  from assms(2,3) have s: "s \<in> set dep" by (auto simp: dep_def)
  from assms(1) have "\<forall>d \<in> set dep. \<forall>l \<in> set (get_links (h d)). l \<in> set (names_of h dicts)"
    by (auto simp: links_present_def dep_def)
  from while_dependent_self_link [OF this s assms(3), of "[]"]
  obtain m where "while_dependent h dicts dep [] = Inl (DependencyError m)" by blast
  then show ?thesis by (simp add: sort_service_dicts_def Let_def dep_def)
qed

theorem sort_service_dicts_self_link_witness:
  "links_present self_store [0, 1] \<and> 1 \<in> set [0, 1 :: nat]
   \<and> name (self_store 1) \<in> set (get_links (self_store 1))
   \<and> (\<exists>m. sort_service_dicts self_store [0, 1] = Inl (DependencyError m))"
proof -
  have a: "links_present self_store [0, 1]" by code_simp
  have b: "1 \<in> set [0, 1 :: nat]" by simp
  have c: "name (self_store 1) \<in> set (get_links (self_store 1))" by code_simp
  from sort_service_dicts_self_link [OF a b c] a b c show ?thesis by blast
qed

text \<open>
  C5. The claim: when every link target is present, no dict links to itself, and two
  distinct dicts \<open>a\<close> and \<open>b\<close> of the list link to each other's names,
  \<^verbatim>\<open>sort_service_dicts\<close> raises \<^verbatim>\<open>DependencyError\<close>.
  The linked dict is looked up by name and the first dict of that name is taken. In
  \<open>twins_store\<close> the dicts 2 and 3 link to each other, but the names \<open>A\<close> and \<open>B\<close> are
  found at 0 and 1, which have no links, and an order is returned.
\<close>

theorem sort_service_dicts_mutual_link_counterexample:
  "links_present twins_store [0, 1, 2, 3] \<and> no_self_link twins_store [0, 1, 2, 3]
   \<and> 2 \<in> set [0, 1, 2, 3 :: nat] \<and> 3 \<in> set [0, 1, 2, 3 :: nat]
   \<and> twins_store 2 \<noteq> twins_store 3
   \<and> name (twins_store 3) \<in> set (get_links (twins_store 2))
   \<and> name (twins_store 2) \<in> set (get_links (twins_store 3))
   \<and> sort_service_dicts twins_store [0, 1, 2, 3] = Inr [1, 0, 3, 2]"
  by code_simp

text \<open>
  C5, amended. When the names of the list are unique, every link target is present and
  two dicts of the list link to each other's names, \<^verbatim>\<open>sort_service_dicts\<close> raises
  \<^verbatim>\<open>DependencyError\<close>.
\<close>

theorem sort_service_dicts_mutual_link:
  assumes "unique_names h dicts" and "links_present h dicts"
    and "a \<in> set dicts" and "b \<in> set dicts"
    and "name (h b) \<in> set (get_links (h a))" and "name (h a) \<in> set (get_links (h b))"
  shows "\<exists>m. sort_service_dicts h dicts = Inl (DependencyError m)"
proof -
  define dep where "dep = filter (\<lambda>s. get_links (h s) \<noteq> []) dicts"
  from assms(3-6) have ab: "a \<in> set dep" "b \<in> set dep" by (auto simp: dep_def)
  from assms(2) have "\<forall>d \<in> set dep. \<forall>l \<in> set (get_links (h d)). l \<in> set (names_of h dicts)"
    by (auto simp: links_present_def dep_def)
  from while_dependent_mutual [OF this ab find_name_unique [OF assms(1,3)]
      find_name_unique [OF assms(1,4)] assms(5,6), of "[]"]
  obtain m where "while_dependent h dicts dep [] = Inl (DependencyError m)" by blast
  then show ?thesis by (simp add: sort_service_dicts_def Let_def dep_def)
qed

theorem sort_service_dicts_mutual_link_witness:
  "unique_names mutual_store [0, 1] \<and> links_present mutual_store [0, 1]
   \<and> no_self_link mutual_store [0, 1]
   \<and> 0 \<in> set [0, 1 :: nat] \<and> 1 \<in> set [0, 1 :: nat] \<and> (0 :: nat) \<noteq> 1
   \<and> name (mutual_store 1) \<in> set (get_links (mutual_store 0))
   \<and> name (mutual_store 0) \<in> set (get_links (mutual_store 1))
   \<and> (\<exists>m. sort_service_dicts mutual_store [0, 1] = Inl (DependencyError m))"
proof -
  have u: "unique_names mutual_store [0, 1]" by code_simp
  have p: "links_present mutual_store [0, 1]" by code_simp
  have n: "no_self_link mutual_store [0, 1]" by code_simp
  have a: "0 \<in> set [0, 1 :: nat]" and b: "1 \<in> set [0, 1 :: nat]" by simp_all
  have ab: "name (mutual_store 1) \<in> set (get_links (mutual_store 0))" by code_simp
  have ba: "name (mutual_store 0) \<in> set (get_links (mutual_store 1))" by code_simp
  from sort_service_dicts_mutual_link [OF u p a b ab ba] u p n a b ab ba
  show ?thesis by simp
qed

text \<open>
  C6. When some dict of the list links to a name that no dict of the list has,
  \<^verbatim>\<open>sort_service_dicts\<close> raises an error and returns no order.
\<close>

theorem sort_service_dicts_missing_link:
  assumes "s \<in> set dicts" and "l \<in> set (get_links (h s))"
    and "l \<notin> set (names_of h dicts)"
  shows "\<exists>e. sort_service_dicts h dicts = Inl e"
proof -
  define dep where "dep = filter (\<lambda>s. get_links (h s) \<noteq> []) dicts"
  from assms(1,2) have s: "s \<in> set dep" by (auto simp: dep_def)
  from while_dependent_missing [OF s assms(2,3), of "[]"]
  obtain e where "while_dependent h dicts dep [] = Inl e" by blast
  then show ?thesis by (simp add: sort_service_dicts_def Let_def dep_def)
qed

theorem sort_service_dicts_missing_link_witness:
  "1 \<in> set [0, 1 :: nat] \<and> ''missing'' \<in> set (get_links (dangling_store 1))
   \<and> ''missing'' \<notin> set (names_of dangling_store [0, 1])
   \<and> (\<exists>e. sort_service_dicts dangling_store [0, 1] = Inl e)"
proof -
  have a: "1 \<in> set [0, 1 :: nat]" by simp
  have b: "''missing'' \<in> set (get_links (dangling_store 1))" by code_simp
  have c: "''missing'' \<notin> set (names_of dangling_store [0, 1])" by code_simp
  from sort_service_dicts_missing_link [OF a b c] a b c show ?thesis by blast
qed

section \<open>Lookup by name\<close>

lemma get_service_loop_Inr:
  "get_service_loop ss nm = Inr s \<Longrightarrow> s \<in> set ss \<and> service_name s = nm"
  by (induction ss) (auto split: if_splits)

lemma get_service_loop_Inl:
  "get_service_loop ss nm = Inl e \<longleftrightarrow> e = NoSuchService nm \<and> nm \<notin> set (map service_name ss)"
  by (induction ss) auto

lemma get_service_Inr: "get_service p nm = Inr s \<Longrightarrow> s \<in> set (services p) \<and> service_name s = nm"
  unfolding get_service_def by (rule get_service_loop_Inr)

lemma get_service_Inl:
  "get_service p nm = Inl e \<longleftrightarrow> e = NoSuchService nm \<and> nm \<notin> set (service_names_of p)"
  unfolding get_service_def service_names_of_def by (rule get_service_loop_Inl)

lemma get_service_present:
  "nm \<in> set (service_names_of p) \<Longrightarrow> \<exists>s. get_service p nm = Inr s"
  using get_service_Inl [of p nm] by (cases "get_service p nm") auto

lemma get_each_Inr:
  "get_each p nms = Inr hs \<Longrightarrow>
   set hs = {s. \<exists>nm \<in> set nms. get_service p nm = Inr s}"
proof (induction nms arbitrary: hs)
  case Nil
  then show ?case by simp
next
  case (Cons nm nms)
  from Cons.prems obtain s ss where s: "get_service p nm = Inr s"
    and ss: "get_each p nms = Inr ss" and hs: "hs = s # ss"
    by (auto split: sum.splits)
  from Cons.IH [OF ss] s hs show ?case by auto
qed

lemma get_each_succeeds:
  "\<forall>nm \<in> set nms. nm \<in> set (service_names_of p) \<Longrightarrow> \<exists>hs. get_each p nms = Inr hs"
proof (induction nms)
  case Nil
  then show ?case by simp
next
  case (Cons nm nms)
  then obtain hs where "get_each p nms = Inr hs" by auto
  moreover from Cons.prems obtain s where "get_service p nm = Inr s"
    using get_service_present [of nm p] by auto
  ultimately show ?case by simp
qed

lemma get_each_missing:
  "find (\<lambda>nm. nm \<notin> set (service_names_of p)) nms = Some missing \<Longrightarrow>
   get_each p nms = Inl (NoSuchService missing)"
proof (induction nms)
  case Nil
  then show ?case by simp
next
  case (Cons nm nms)
  show ?case
  proof (cases "nm \<in> set (service_names_of p)")
    case True
    then obtain s where "get_service p nm = Inr s"
      using get_service_present by blast
    with True Cons show ?thesis by simp
  next
    case False
    with Cons.prems have "missing = nm" by simp
    moreover from False have "get_service p nm = Inl (NoSuchService nm)"
      by (simp add: get_service_Inl)
    ultimately show ?thesis by simp
  qed
qed

lemma requested_alt:
  "requested p nms s \<longleftrightarrow>
   (\<exists>nm \<in> set nms. \<exists>s'. get_service p nm = Inr s' \<and> service_id s' = service_id s)"
proof -
  have "\<And>nm. (case get_service p nm of Inl e \<Rightarrow> False
                 | Inr s' \<Rightarrow> service_id s' = service_id s) \<longleftrightarrow>
      (\<exists>s'. get_service p nm = Inr s' \<and> service_id s' = service_id s)"
    subgoal for nm by (cases "get_service p nm") simp_all
    done
  then show ?thesis unfolding requested_def by simp
qed

lemma get_services_requested:
  assumes "nms \<noteq> []" and "\<forall>nm \<in> set nms. nm \<in> set (service_names_of p)"
  shows "get_services p (Some nms) = Inr (filter (requested p nms) (services p))"
proof -
  from get_each_succeeds [OF assms(2)] obtain hs where hs: "get_each p nms = Inr hs" by blast
  note H = get_each_Inr [OF hs]
  have "service_id s \<in> set (map service_id hs) \<longleftrightarrow> requested p nms s" for s
  proof
    assume "service_id s \<in> set (map service_id hs)"
    then obtain s' where s': "s' \<in> set hs" and id: "service_id s' = service_id s" by auto
    from s' H obtain nm where "nm \<in> set nms" "get_service p nm = Inr s'" by auto
    with id show "requested p nms s" unfolding requested_alt by blast
  next
    assume "requested p nms s"
    then obtain nm s' where nm: "nm \<in> set nms" and s': "get_service p nm = Inr s'"
      and id: "service_id s' = service_id s"
      unfolding requested_alt by blast
    from nm s' H have "s' \<in> set hs" by auto
    then have "service_id s' \<in> set (map service_id hs)" by simp
    then show "service_id s \<in> set (map service_id hs)" by (simp only: id)
  qed
  then have "filter (\<lambda>s. service_id s \<in> set (map service_id hs)) (services p)
      = filter (requested p nms) (services p)" by simp
  with hs assms(1) show ?thesis by (simp add: get_services_def)
qed

lemma requested_by_name:
  assumes "inj_on service_id (set (services p))" and "distinct (service_names_of p)"
    and "s \<in> set (services p)" and "\<forall>nm \<in> set nms. nm \<in> set (service_names_of p)"
  shows "requested p nms s \<longleftrightarrow> service_name s \<in> set nms"
proof
  assume "requested p nms s"
  then obtain nm s' where nm: "nm \<in> set nms" and s': "get_service p nm = Inr s'"
    and id: "service_id s' = service_id s"
    unfolding requested_alt by blast
  from get_service_Inr [OF s'] have "s' \<in> set (services p)" "service_name s' = nm" by simp_all
  with assms(1,3) id have "s' = s" by (simp add: inj_on_def)
  with \<open>service_name s' = nm\<close> nm show "service_name s \<in> set nms" by simp
next
  assume n: "service_name s \<in> set nms"
  with assms(4) obtain s' where s': "get_service p (service_name s) = Inr s'"
    using get_service_present by blast
  from get_service_Inr [OF s'] have a: "s' \<in> set (services p)" "service_name s' = service_name s"
    by simp_all
  from assms(2) have "inj_on service_name (set (services p))"
    by (simp add: service_names_of_def distinct_map)
  with a assms(3) have "s' = s" by (simp add: inj_on_def)
  with s' n show "requested p nms s" unfolding requested_alt by blast
qed

lemma requested_set_cong: "set nms' = set nms \<Longrightarrow> requested p nms' = requested p nms"
  unfolding requested_def by simp

text \<open>
  C7. \<^verbatim>\<open>get_services(None)\<close> and \<^verbatim>\<open>get_services([])\<close> return the services of the
  project. For a non-empty list of names that all exist, \<^verbatim>\<open>get_services\<close> returns the
  services of the project, in the project's order, that \<^verbatim>\<open>get_service\<close> returns for
  one of the names; the result depends on the set of names only, not on their order;
  and where objects and names of the project are unique these are the services whose
  name is among the names. When some name is the name of no service, the call raises
  \<^verbatim>\<open>NoSuchService\<close> with the first such name.
\<close>

theorem get_services_filter:
  "get_services p None = Inr (services p)
   \<and> get_services p (Some []) = Inr (services p)
   \<and> (nms \<noteq> [] \<and> (\<forall>nm \<in> set nms. nm \<in> set (service_names_of p)) \<longrightarrow>
        get_services p (Some nms) = Inr (filter (requested p nms) (services p))
        \<and> (\<forall>nms'. set nms' = set nms \<longrightarrow>
              get_services p (Some nms') = get_services p (Some nms))
        \<and> (inj_on service_id (set (services p)) \<and> distinct (service_names_of p) \<longrightarrow>
              get_services p (Some nms)
                = Inr (filter (\<lambda>s. service_name s \<in> set nms) (services p))))
   \<and> (find (\<lambda>nm. nm \<notin> set (service_names_of p)) nms2 = Some missing \<longrightarrow>
        get_services p (Some nms2) = Inl (NoSuchService missing))"
proof (intro conjI impI allI)
  show "get_services p None = Inr (services p)" by (simp add: get_services_def)
  show "get_services p (Some []) = Inr (services p)" by (simp add: get_services_def)
next
  assume a: "nms \<noteq> [] \<and> (\<forall>nm \<in> set nms. nm \<in> set (service_names_of p))"
  then show r: "get_services p (Some nms) = Inr (filter (requested p nms) (services p))"
    by (simp add: get_services_requested)
  {
    fix nms' assume e: "set nms' = set nms"
    with a have "nms' \<noteq> []" "\<forall>nm \<in> set nms'. nm \<in> set (service_names_of p)" by auto
    then have "get_services p (Some nms') = Inr (filter (requested p nms') (services p))"
      by (rule get_services_requested)
    with r requested_set_cong [OF e, of p]
    show "get_services p (Some nms') = get_services p (Some nms)" by simp
  }
  {
    assume w: "inj_on service_id (set (services p)) \<and> distinct (service_names_of p)"
    have "filter (requested p nms) (services p)
        = filter (\<lambda>s. service_name s \<in> set nms) (services p)"
      using requested_by_name [of p _ nms] w a by (intro filter_cong) simp_all
    with r show "get_services p (Some nms)
        = Inr (filter (\<lambda>s. service_name s \<in> set nms) (services p))" by simp
  }
next
  assume f: "find (\<lambda>nm. nm \<notin> set (service_names_of p)) nms2 = Some missing"
  then have "nms2 \<noteq> []" by auto
  with get_each_missing [OF f] show "get_services p (Some nms2) = Inl (NoSuchService missing)"
    by (simp add: get_services_def)
qed

theorem get_services_filter_witness:
  "[''C'', ''A''] \<noteq> [] \<and> set [''C'', ''A''] \<subseteq> set (service_names_of chain_project)
   \<and> set [''A'', ''C'', ''A''] = set [''C'', ''A'']
   \<and> inj_on service_id (set (services chain_project))
   \<and> distinct (service_names_of chain_project)
   \<and> find (\<lambda>nm. nm \<notin> set (service_names_of chain_project)) [''A'', ''missing'', ''B'']
       = Some ''missing''
   \<and> get_services chain_project (Some [''C'', ''A''])
       = Inr [service_A, service_C]
   \<and> get_services chain_project (Some [''A'', ''C'', ''A''])
       = get_services chain_project (Some [''C'', ''A''])
   \<and> get_services chain_project (Some [''A'', ''missing'', ''B''])
       = Inl (NoSuchService ''missing'')"
proof -
  have a: "[''C'', ''A''] \<noteq> [] \<and> (\<forall>nm \<in> set [''C'', ''A'']. nm \<in> set (service_names_of chain_project))"
    by code_simp
  have b: "set [''A'', ''C'', ''A''] = set [''C'', ''A'']" by auto
  have c: "inj_on service_id (set (services chain_project)) \<and> distinct (service_names_of chain_project)"
    by (simp add: chain_project_def service_names_of_def service_A_def service_B_def
        service_C_def)
  have d: "find (\<lambda>nm. nm \<notin> set (service_names_of chain_project)) [''A'', ''missing'', ''B'']
       = Some ''missing''" by code_simp
  have e: "filter (\<lambda>s. service_name s \<in> set [''C'', ''A'']) (services chain_project)
       = [service_A, service_C]"
    by (simp add: chain_project_def service_A_def service_B_def service_C_def)
  note T = get_services_filter
    [of chain_project "[''C'', ''A'']" "[''A'', ''missing'', ''B'']" "''missing''"]
  from T a c have "get_services chain_project (Some [''C'', ''A''])
      = Inr (filter (\<lambda>s. service_name s \<in> set [''C'', ''A'']) (services chain_project))"
    by blast
  with e have r1: "get_services chain_project (Some [''C'', ''A''])
      = Inr [service_A, service_C]"
    by (simp only:)
  from T a b have r2: "get_services chain_project (Some [''A'', ''C'', ''A''])
      = get_services chain_project (Some [''C'', ''A''])"
    by blast
  from T d have r3: "get_services chain_project (Some [''A'', ''missing'', ''B''])
      = Inl (NoSuchService ''missing'')"
    by blast
  from a have a1: "[''C'', ''A''] \<noteq> []"
    and a2: "set [''C'', ''A''] \<subseteq> set (service_names_of chain_project)" by blast+
  from c have c1: "inj_on service_id (set (services chain_project))"
    and c2: "distinct (service_names_of chain_project)" by blast+
  show ?thesis by (intro conjI a1 a2 b c1 c2 d r1 r2 r3)
qed

section \<open>The loops of the bulk operations\<close>

lemma traced_apply:
  "traced f s (w, tr) = (case f s w of (r, w') \<Rightarrow> (r, (w', tr @ [s])))"
  by (simp add: traced_def)

lemma for_services_traced_ok:
  "for_services f ss w = (Inr (), w') \<Longrightarrow>
   for_services (traced f) ss (w, tr) = (Inr (), (w', tr @ ss))"
proof (induction ss arbitrary: w tr)
  case Nil
  then show ?case by simp
next
  case (Cons s ss)
  obtain r w1 where step: "f s w = (r, w1)" by (cases "f s w")
  with Cons.prems obtain u where r: "r = Inr u" and rest: "for_services f ss w1 = (Inr (), w')"
    by (cases r) auto
  from Cons.IH [OF rest, of "tr @ [s]"] step r show ?case
    by (simp add: traced_apply)
qed

lemma for_services_fail_at:
  "for_services g pre w = (Inr (), w1) \<Longrightarrow> g s w1 = (Inl e, w2) \<Longrightarrow>
   for_services g (pre @ s # post) w = (Inl e, w2)"
proof (induction pre arbitrary: w)
  case Nil
  then show ?case by simp
next
  case (Cons a pre)
  obtain r wa where step: "g a w = (r, wa)" by (cases "g a w")
  with Cons.prems(1) obtain u where r: "r = Inr u" and rest: "for_services g pre wa = (Inr (), w1)"
    by (cases r) auto
  from Cons.IH [OF rest Cons.prems(2)] step r show ?case by simp
qed

lemma for_services_traced_fail_at:
  assumes "for_services f pre w = (Inr (), w1)" and "f s w1 = (Inl e, w2)"
  shows "for_services (traced f) (pre @ s # post) (w, []) = (Inl e, (w2, pre @ [s]))"
proof -
  from for_services_traced_ok [OF assms(1), of "[]"]
  have a: "for_services (traced f) pre (w, []) = (Inr (), (w1, pre))" by simp
  from assms(2) have b: "traced f s (w1, pre) = (Inl e, (w2, pre @ [s]))"
    by (simp add: traced_apply)
  from for_services_fail_at [OF a b] show ?thesis .
qed

lemma over_services_Inl:
  "get_services p service_names = Inr selected \<Longrightarrow> body selected w = (Inl e, w') \<Longrightarrow>
   over_services p service_names body w = (Inl (Inr e), w')"
  by (simp add: over_services_def)

lemma over_services_Inr:
  "get_services p service_names = Inr selected \<Longrightarrow> body selected w = (Inr r, w') \<Longrightarrow>
   over_services p service_names body w = (Inr r, w')"
  by (simp add: over_services_def)

lemma build_loop_succeeds:
  "\<forall>s \<in> set ss. can_be_built s \<longrightarrow> (\<forall>w. fst (service_build s options w) = Inr ()) \<Longrightarrow>
   \<exists>w'. build_loop can_be_built service_build log_info options ss w = (Inr (), w')"
proof (induction ss arbitrary: w)
  case Nil
  then show ?case by simp
next
  case (Cons s ss)
  from Cons.prems have rest: "\<forall>s \<in> set ss. can_be_built s \<longrightarrow>
      (\<forall>w. fst (service_build s options w) = Inr ())" by simp
  show ?case
  proof (cases "can_be_built s")
    case True
    with Cons.prems have "fst (service_build s options w) = Inr ()" by simp
    then obtain w1 where "service_build s options w = (Inr (), w1)"
      by (cases "service_build s options w") simp
    with True Cons.IH [OF rest, of w1] show ?thesis by simp
  next
    case False
    with Cons.IH [OF rest] show ?thesis by simp
  qed
qed

lemma build_loop_traced_ok:
  "build_loop can_be_built service_build log_info options ss w = (Inr (), w') \<Longrightarrow>
   build_loop can_be_built (traced_with service_build) (untraced log_info) options ss (w, tr)
     = (Inr (), (w', tr @ filter can_be_built ss))"
proof (induction ss arbitrary: w tr)
  case Nil
  then show ?case by simp
next
  case (Cons s ss)
  show ?case
  proof (cases "can_be_built s")
    case True
    obtain r w1 where step: "service_build s options w = (r, w1)"
      by (cases "service_build s options w")
    with Cons.prems True obtain u where r: "r = Inr u"
      and rest: "build_loop can_be_built service_build log_info options ss w1 = (Inr (), w')"
      by (cases r) auto
    from Cons.IH [OF rest, of "tr @ [s]"] step r True show ?thesis
      by (simp add: traced_with_def traced_apply)
  next
    case False
    with Cons.prems have rest: "build_loop can_be_built service_build log_info options ss
        (log_info (service_name s @ '' uses an image, skipping'') w) = (Inr (), w')" by simp
    from Cons.IH [OF rest, of tr] False show ?thesis
      by (simp add: untraced_def)
  qed
qed

lemma build_loop_fail_at:
  "build_loop cbb g li options pre w = (Inr (), w1) \<Longrightarrow> cbb s \<Longrightarrow>
   g s options w1 = (Inl e, w2) \<Longrightarrow>
   build_loop cbb g li options (pre @ s # post) w = (Inl e, w2)"
proof (induction pre arbitrary: w)
  case Nil
  then show ?case by simp
next
  case (Cons a pre)
  show ?case
  proof (cases "cbb a")
    case True
    obtain r wa where step: "g a options w = (r, wa)" by (cases "g a options w")
    with Cons.prems(1) True obtain u where r: "r = Inr u"
      and rest: "build_loop cbb g li options pre wa = (Inr (), w1)"
      by (cases r) auto
    from Cons.IH [OF rest Cons.prems(2,3)] step r True show ?thesis by simp
  next
    case False
    with Cons.prems(1) have rest: "build_loop cbb g li options pre
        (li (service_name a @ '' uses an image, skipping'') w) = (Inr (), w1)" by simp
    from Cons.IH [OF rest Cons.prems(2,3)] False show ?thesis by simp
  qed
qed

lemma recreate_loop_traced_ok:
  "recreate_loop f ss old new w = (Inr res, w') \<Longrightarrow>
   recreate_loop (traced f) ss old new (w, tr) = (Inr res, (w', tr @ ss))"
proof (induction ss arbitrary: w tr old new)
  case Nil
  then show ?case by simp
next
  case (Cons s ss)
  obtain r w1 where step: "f s w = (r, w1)" by (cases "f s w")
  with Cons.prems obtain s_old s_new where r: "r = Inr (s_old, s_new)"
    and rest: "recreate_loop f ss (old @ map (\<lambda>container. (s, container)) s_old)
        (new @ map (\<lambda>container. (s, container)) s_new) w1 = (Inr res, w')"
    by (cases r) auto
  from Cons.IH [OF rest, of "tr @ [s]"] step r show ?case
    by (simp add: traced_apply)
qed

lemma recreate_loop_fail_at:
  "recreate_loop g pre old new w = (Inr res, w1) \<Longrightarrow> g s w1 = (Inl e, w2) \<Longrightarrow>
   recreate_loop g (pre @ s # post) old new w = (Inl e, w2)"
proof (induction pre arbitrary: w old new)
  case Nil
  then show ?case by simp
next
  case (Cons a pre)
  obtain r wa where step: "g a w = (r, wa)" by (cases "g a w")
  with Cons.prems(1) obtain s_old s_new where r: "r = Inr (s_old, s_new)"
    and rest: "recreate_loop g pre (old @ map (\<lambda>container. (a, container)) s_old)
        (new @ map (\<lambda>container. (a, container)) s_new) wa = (Inr res, w1)"
    by (cases r) auto
  from Cons.IH [OF rest Cons.prems(2)] step r show ?case by simp
qed

lemma build_loop_traced_prefix:
  "\<exists>k \<le> length ss.
     snd (snd (build_loop can_be_built (traced_with service_build) (untraced log_info) options ss
                 (w, tr)))
       = tr @ filter can_be_built (take k ss)"
proof (induction ss arbitrary: w tr)
  case Nil
  then show ?case by simp
next
  case (Cons s ss)
  show ?case
  proof (cases "can_be_built s")
    case True
    obtain r w1 where step: "service_build s options w = (r, w1)"
      by (cases "service_build s options w")
    show ?thesis
    proof (cases r)
      case (Inl e)
      with step True have "snd (snd (build_loop can_be_built (traced_with service_build)
          (untraced log_info) options (s # ss) (w, tr)))
          = tr @ filter can_be_built (take (Suc 0) (s # ss))"
        by (simp add: traced_with_def traced_apply)
      then show ?thesis by (intro exI [of _ "Suc 0"]) simp
    next
      case (Inr u)
      from Cons.IH [of w1 "tr @ [s]"] obtain k where k: "k \<le> length ss"
        "snd (snd (build_loop can_be_built (traced_with service_build) (untraced log_info)
            options ss (w1, tr @ [s]))) = (tr @ [s]) @ filter can_be_built (take k ss)"
        by blast
      with step Inr True have "snd (snd (build_loop can_be_built (traced_with service_build)
          (untraced log_info) options (s # ss) (w, tr)))
          = tr @ filter can_be_built (take (Suc k) (s # ss))"
        by (simp add: traced_with_def traced_apply)
      with k(1) show ?thesis by (intro exI [of _ "Suc k"]) simp
    qed
  next
    case False
    from Cons.IH [of "log_info (service_name s @ '' uses an image, skipping'') w" tr]
    obtain k where k: "k \<le> length ss"
      "snd (snd (build_loop can_be_built (traced_with service_build) (untraced log_info)
          options ss (log_info (service_name s @ '' uses an image, skipping'') w, tr)))
        = tr @ filter can_be_built (take k ss)"
      by blast
    with False have "snd (snd (build_loop can_be_built (traced_with service_build)
        (untraced log_info) options (s # ss) (w, tr)))
        = tr @ filter can_be_built (take (Suc k) (s # ss))"
      by (simp add: untraced_def)
    with k(1) show ?thesis by (intro exI [of _ "Suc k"]) simp
  qed
qed

lemma over_services_state:
  "get_services p service_names = Inr selected \<Longrightarrow>
   snd (over_services p service_names body w) = snd (body selected w)"
  by (cases "body selected w") (auto simp: over_services_def split: sum.splits)

text \<open>
  C8. \<^verbatim>\<open>Project.build\<close> invokes \<^verbatim>\<open>build\<close> on the selected services for which
  \<^verbatim>\<open>can_be_built()\<close> is true, in the order of the selection, and on no other: the
  invocations are always the buildable services among the first \<open>k\<close> selected ones, for
  some \<open>k\<close>; and where the builds that are invoked return, the call returns and the
  invocations are the buildable services of the whole selection. What \<^verbatim>\<open>build\<close> would
  do on a service that cannot be built is of no account.
\<close>

theorem build_skips_images:
  assumes "get_services p service_names = Inr selected"
  shows "(\<exists>k \<le> length selected.
            snd (snd (build can_be_built (traced_with service_build) (untraced log_info)
                        p service_names options (w, [])))
              = filter can_be_built (take k selected))
       \<and> ((\<forall>s \<in> set selected. can_be_built s \<longrightarrow>
               (\<forall>w. fst (service_build s options w) = Inr ())) \<longrightarrow>
            (\<exists>w'. build can_be_built (traced_with service_build) (untraced log_info)
                     p service_names options (w, [])
                   = (Inr (), (w', filter can_be_built selected))))"
proof (intro conjI impI)
  from build_loop_traced_prefix [of selected can_be_built service_build log_info options w "[]"]
  show "\<exists>k \<le> length selected.
            snd (snd (build can_be_built (traced_with service_build) (untraced log_info)
                        p service_names options (w, [])))
              = filter can_be_built (take k selected)"
    unfolding build_def over_services_state [OF assms] by simp
next
  assume ok: "\<forall>s \<in> set selected. can_be_built s \<longrightarrow>
      (\<forall>w. fst (service_build s options w) = Inr ())"
  then have "\<exists>w'. build_loop can_be_built service_build log_info options selected w = (Inr (), w')"
    by (rule build_loop_succeeds)
  then obtain w' where
    "build_loop can_be_built service_build log_info options selected w = (Inr (), w')"
    by blast
  from build_loop_traced_ok [OF this, of "[]"]
  have "build_loop can_be_built (traced_with service_build) (untraced log_info) options selected
      (w, []) = (Inr (), (w', filter can_be_built selected))" by simp
  with assms
  have "over_services p service_names
      (build_loop can_be_built (traced_with service_build) (untraced log_info) options) (w, [])
      = (Inr (), (w', filter can_be_built selected))"
    by (rule over_services_Inr)
  then show "\<exists>w'. build can_be_built (traced_with service_build) (untraced log_info)
                     p service_names options (w, [])
                   = (Inr (), (w', filter can_be_built selected))"
    unfolding build_def by blast
qed

theorem build_skips_images_witness:
  "get_services chain_project None = Inr (services chain_project)
   \<and> is_built service_A \<and> (\<forall>w. fst (flaky_op service_A () w) = Inr ())
   \<and> is_built service_C \<and> (\<forall>w. fst (flaky_op service_C () w) = Inr ())
   \<and> \<not> is_built service_B
   \<and> fst (flaky_op service_B () 0) = Inl ''boom''
   \<and> (\<exists>w'. build is_built (traced_with flaky_op) (untraced drop_line) chain_project None ()
              (0, [])
            = (Inr (), (w', [service_A, service_C])))"
proof -
  have a: "get_services chain_project None = Inr (services chain_project)"
    by (simp add: get_services_def)
  have b: "\<forall>s \<in> set (services chain_project).
         is_built s \<longrightarrow> (\<forall>w. fst (flaky_op s () w) = Inr ())"
    by (simp add: chain_project_def is_built_def flaky_op_def service_A_def service_B_def
        service_C_def)
  have c: "\<not> is_built service_B
      \<and> fst (flaky_op service_B () 0) = Inl ''boom''"
    by (simp add: chain_project_def is_built_def flaky_op_def service_A_def service_B_def
        service_C_def)
  have d: "filter is_built (services chain_project)
      = [service_A, service_C]"
    by (simp add: chain_project_def is_built_def service_A_def service_B_def service_C_def)
  note T = build_skips_images
    [of chain_project None "services chain_project" is_built flaky_op drop_line "()" 0, OF a]
  from T [THEN conjunct2, THEN mp, OF b] d
  have "\<exists>w'. build is_built (traced_with flaky_op) (untraced drop_line) chain_project None ()
              (0, [])
            = (Inr (), (w', [service_A, service_C]))"
    by (simp only:)
  moreover have "is_built service_A \<and> (\<forall>w. fst (flaky_op service_A () w) = Inr ())
      \<and> is_built service_C \<and> (\<forall>w. fst (flaky_op service_C () w) = Inr ())"
    by (simp add: is_built_def flaky_op_def service_A_def service_B_def service_C_def)
  ultimately show ?thesis using a c by blast
qed

text \<open>
  C9. Let the selected services be \<open>pre\<close>, then \<open>s\<close>, then \<open>post\<close>, let the method of
  the bulk operation return on every service of \<open>pre\<close> and raise \<open>e\<close> on \<open>s\<close> in the
  state \<open>w1\<close> that the calls on \<open>pre\<close> have left. Then \<^verbatim>\<open>start\<close>, \<^verbatim>\<open>stop\<close>, \<^verbatim>\<open>kill\<close>,
  \<^verbatim>\<open>remove_stopped\<close>, \<^verbatim>\<open>build\<close> and \<^verbatim>\<open>recreate_containers\<close> raise that same \<open>e\<close>,
  the method has been invoked on \<open>pre\<close> and on \<open>s\<close> (for \<^verbatim>\<open>build\<close>: on the buildable
  services of \<open>pre\<close> and on \<open>s\<close>) and on no service of \<open>post\<close>, and the state is the one
  that the failing call has left of \<open>w1\<close>: nothing done before is undone.
\<close>

theorem bulk_operations_stop_at_failure:
  assumes "get_services p service_names = Inr (pre @ s # post)"
  shows "(for_services (\<lambda>service. service_op service options) pre w = (Inr (), w1)
          \<and> service_op s options w1 = (Inl e, w2) \<longrightarrow>
            start (traced_with service_op) p service_names options (w, [])
              = (Inl (Inr e), (w2, pre @ [s]))
            \<and> stop (traced_with service_op) p service_names options (w, [])
              = (Inl (Inr e), (w2, pre @ [s]))
            \<and> kill (traced_with service_op) p service_names options (w, [])
              = (Inl (Inr e), (w2, pre @ [s]))
            \<and> remove_stopped (traced_with service_op) p service_names options (w, [])
              = (Inl (Inr e), (w2, pre @ [s])))
       \<and> (build_loop can_be_built service_build log_info options pre w = (Inr (), w1)
          \<and> can_be_built s \<and> service_build s options w1 = (Inl e, w2) \<longrightarrow>
            build can_be_built (traced_with service_build) (untraced log_info)
                p service_names options (w, [])
              = (Inl (Inr e), (w2, filter can_be_built pre @ [s])))
       \<and> (recreate_loop service_recreate pre [] [] w = (Inr res, w1)
          \<and> service_recreate s w1 = (Inl e, w2) \<longrightarrow>
            recreate_containers (traced service_recreate) p service_names (w, [])
              = (Inl (Inr e), (w2, pre @ [s])))"
proof (intro conjI impI)
  assume a: "for_services (\<lambda>service. service_op service options) pre w = (Inr (), w1)
          \<and> service_op s options w1 = (Inl e, w2)"
  have t: "(\<lambda>service. traced_with service_op service options)
      = traced (\<lambda>service. service_op service options)"
    by (simp add: traced_with_def fun_eq_iff)
  from a for_services_traced_fail_at [of "\<lambda>service. service_op service options" pre w w1 s e w2 post]
  have "for_services (\<lambda>service. traced_with service_op service options) (pre @ s # post) (w, [])
      = (Inl e, (w2, pre @ [s]))"
    unfolding t by blast
  with assms have r: "over_services p service_names
      (for_services (\<lambda>service. traced_with service_op service options)) (w, [])
      = (Inl (Inr e), (w2, pre @ [s]))"
    by (rule over_services_Inl)
  from r show "start (traced_with service_op) p service_names options (w, [])
      = (Inl (Inr e), (w2, pre @ [s]))" unfolding start_def .
  from r show "stop (traced_with service_op) p service_names options (w, [])
      = (Inl (Inr e), (w2, pre @ [s]))" unfolding stop_def .
  from r show "kill (traced_with service_op) p service_names options (w, [])
      = (Inl (Inr e), (w2, pre @ [s]))" unfolding kill_def .
  from r show "remove_stopped (traced_with service_op) p service_names options (w, [])
      = (Inl (Inr e), (w2, pre @ [s]))" unfolding remove_stopped_def .
next
  assume a: "build_loop can_be_built service_build log_info options pre w = (Inr (), w1)
          \<and> can_be_built s \<and> service_build s options w1 = (Inl e, w2)"
  then have pre: "build_loop can_be_built (traced_with service_build) (untraced log_info)
      options pre (w, []) = (Inr (), (w1, filter can_be_built pre))"
    using build_loop_traced_ok [of can_be_built service_build log_info options pre w w1 "[]"]
    by simp
  from a have "traced_with service_build s options (w1, filter can_be_built pre)
      = (Inl e, (w2, filter can_be_built pre @ [s]))"
    by (simp add: traced_with_def traced_apply)
  from build_loop_fail_at [OF pre _ this] a
  have "build_loop can_be_built (traced_with service_build) (untraced log_info)
      options (pre @ s # post) (w, []) = (Inl e, (w2, filter can_be_built pre @ [s]))"
    by blast
  with assms
  have "over_services p service_names
      (build_loop can_be_built (traced_with service_build) (untraced log_info) options) (w, [])
      = (Inl (Inr e), (w2, filter can_be_built pre @ [s]))"
    by (rule over_services_Inl)
  then show "build can_be_built (traced_with service_build) (untraced log_info)
                p service_names options (w, [])
              = (Inl (Inr e), (w2, filter can_be_built pre @ [s]))"
    unfolding build_def .
next
  assume a: "recreate_loop service_recreate pre [] [] w = (Inr res, w1)
          \<and> service_recreate s w1 = (Inl e, w2)"
  then have pre: "recreate_loop (traced service_recreate) pre [] [] (w, []) = (Inr res, (w1, pre))"
    using recreate_loop_traced_ok [of service_recreate pre "[]" "[]" w res w1 "[]"] by simp
  from a have "traced service_recreate s (w1, pre) = (Inl e, (w2, pre @ [s]))"
    by (simp add: traced_apply)
  from recreate_loop_fail_at [OF pre this]
  have "recreate_loop (traced service_recreate) (pre @ s # post) [] [] (w, [])
      = (Inl e, (w2, pre @ [s]))" .
  with assms
  have "over_services p service_names
      (\<lambda>selected. recreate_loop (traced service_recreate) selected [] []) (w, [])
      = (Inl (Inr e), (w2, pre @ [s]))"
    by (rule over_services_Inl)
  then show "recreate_containers (traced service_recreate) p service_names (w, [])
              = (Inl (Inr e), (w2, pre @ [s]))"
    unfolding recreate_containers_def .
qed

theorem bulk_operations_stop_at_failure_witness:
  "get_services chain_project None = Inr ([service_A] @ service_B # [service_C])
   \<and> for_services (\<lambda>service. flaky_op service ()) [service_A] 0 = (Inr (), 1)
   \<and> flaky_op service_B () 1 = (Inl ''boom'', 11)
   \<and> start (traced_with flaky_op) chain_project None () (0, [])
       = (Inl (Inr ''boom''), (11, [service_A] @ [service_B]))
   \<and> stop (traced_with flaky_op) chain_project None () (0, [])
       = (Inl (Inr ''boom''), (11, [service_A] @ [service_B]))
   \<and> kill (traced_with flaky_op) chain_project None () (0, [])
       = (Inl (Inr ''boom''), (11, [service_A] @ [service_B]))
   \<and> remove_stopped (traced_with flaky_op) chain_project None () (0, [])
       = (Inl (Inr ''boom''), (11, [service_A] @ [service_B]))
   \<and> build_loop (\<lambda>service. True) flaky_op drop_line () [service_A] 0 = (Inr (), 1)
   \<and> build (\<lambda>service. True) (traced_with flaky_op) (untraced drop_line) chain_project None ()
         (0, [])
       = (Inl (Inr ''boom''), (11, filter (\<lambda>service. True) [service_A] @ [service_B]))
   \<and> recreate_loop flaky_recreate [service_A] [] [] 0
       = (Inr ([(service_A, 0)], [(service_A, 1)]), 1)
   \<and> flaky_recreate service_B 1 = (Inl ''boom'', 11)
   \<and> recreate_containers (traced flaky_recreate) chain_project None (0, [])
       = (Inl (Inr ''boom''), (11, [service_A] @ [service_B]))"
proof -
  have sel: "get_services chain_project None = Inr ([service_A] @ service_B # [service_C])"
    by (simp add: get_services_def chain_project_def)
  have a: "for_services (\<lambda>service. flaky_op service ()) [service_A] 0 = (Inr (), 1)
      \<and> flaky_op service_B () 1 = (Inl ''boom'', 11)"
    by (simp add: flaky_op_def service_A_def service_B_def)
  have b: "build_loop (\<lambda>service. True) flaky_op drop_line () [service_A] 0 = (Inr (), 1)
      \<and> True \<and> flaky_op service_B () 1 = (Inl ''boom'', 11)"
    by (simp add: flaky_op_def service_A_def service_B_def)
  have c: "recreate_loop flaky_recreate [service_A] [] [] 0
        = (Inr ([(service_A, 0)], [(service_A, 1)]), 1)
      \<and> flaky_recreate service_B 1 = (Inl ''boom'', 11)"
    by (simp add: flaky_recreate_def service_A_def service_B_def)
  note T = bulk_operations_stop_at_failure [OF sel,
      of flaky_op "()" 0 1 "''boom''" 11 "\<lambda>service. True" flaky_op drop_line
         flaky_recreate "([(service_A, 0)], [(service_A, 1)])"]
  note T1 = T [THEN conjunct1, THEN mp, OF a]
  note T2 = T [THEN conjunct2, THEN conjunct1, THEN mp, OF b]
  note T3 = T [THEN conjunct2, THEN conjunct2, THEN mp, OF c]
  from a b c have a1: "for_services (\<lambda>service. flaky_op service ()) [service_A] 0 = (Inr (), 1)"
    and a2: "flaky_op service_B () 1 = (Inl ''boom'', 11)"
    and b1: "build_loop (\<lambda>service. True) flaky_op drop_line () [service_A] 0 = (Inr (), 1)"
    and c1: "recreate_loop flaky_recreate [service_A] [] [] 0
        = (Inr ([(service_A, 0)], [(service_A, 1)]), 1)"
    and c2: "flaky_recreate service_B 1 = (Inl ''boom'', 11)"
    by blast+
  show ?thesis
    by (intro conjI sel a1 a2 b1 c1 c2 T2 T3 T1 [THEN conjunct1]
        T1 [THEN conjunct2, THEN conjunct1]
        T1 [THEN conjunct2, THEN conjunct2, THEN conjunct1]
        T1 [THEN conjunct2, THEN conjunct2, THEN conjunct2])
qed

section \<open>Construction of a project\<close>

text \<open>
  C2. The claim: \<^verbatim>\<open>from_dicts\<close> builds a project from \<open>A\<close>, \<open>B\<close> linking to \<open>A\<close>
  and \<open>C\<close> linking to \<open>B\<close> in whatever order they are given, and the link of the
  service \<open>C\<close> is the very object that \<^verbatim>\<open>get_service\<close> returns for \<open>B\<close>.
  Given in the order \<open>C\<close>, \<open>B\<close>, \<open>A\<close> they are; given in the order \<open>A\<close>, \<open>B\<close>,
  \<open>C\<close>, a valid list, the sorted order is \<open>A\<close>, \<open>C\<close>, \<open>B\<close>, the link \<open>B\<close> of
  \<open>C\<close> is looked up before \<open>B\<close> is constructed, and \<^verbatim>\<open>from_dicts\<close> raises
  \<^verbatim>\<open>NoSuchService\<close>.
\<close>

theorem from_dicts_chain_orders:
  "valid_specs chain_store [0, 1, 2]
   \<and> from_dicts ''p'' chain_store [0, 1, 2] () = (chain_store, Inl (NoSuchService ''B''))
   \<and> snd (from_dicts ''p'' chain_store [2, 1, 0] ()) = Inr chain_project
   \<and> get_service chain_project ''C'' = Inr service_C
   \<and> get_service chain_project ''B'' = Inr service_B
   \<and> service_links service_C = [service_B]"
proof -
  have "valid_specs chain_store [0, 1, 2]" by code_simp
  moreover have "sort_service_dicts chain_store [0, 1, 2] = Inr [0, 2, 1]" by code_simp
  then have "from_dicts ''p'' chain_store [0, 1, 2] () = (chain_store, Inl (NoSuchService ''B''))"
    by (simp add: from_dicts_def chain_store_def get_links_def get_service_def)
  moreover have "snd (from_dicts ''p'' chain_store [2, 1, 0] ()) = Inr chain_project" by code_simp
  moreover have "get_service chain_project ''C'' = Inr service_C" by code_simp
  moreover have "get_service chain_project ''B'' = Inr service_B" by code_simp
  moreover have "service_links service_C = [service_B]" by (simp add: service_C_def)
  ultimately show ?thesis by blast
qed

lemma from_dicts_loop_store:
  "from_dicts_loop nm cl srt h p = (h', Inr p') \<Longrightarrow>
   h' r = (if r \<in> set srt then (h r)\<lparr>links := None\<rparr> else h r)"
proof (induction srt arbitrary: h p)
  case Nil
  then show ?case by simp
next
  case (Cons d srt)
  define h1 where "h1 = (if links (h d) \<noteq> None then h(d := (h d)\<lparr>links := None\<rparr>) else h)"
  have h1: "h1 = h(d := (h d)\<lparr>links := None\<rparr>)"
    by (auto simp: h1_def fun_eq_iff)
  from Cons.prems obtain lnks where
    rest: "from_dicts_loop nm cl srt h1
        (p\<lparr>services := services p @ [Service (length (services p)) cl nm lnks
            (name (h1 d)) (other (h1 d))]\<rparr>) = (h', Inr p')"
    by (auto simp: Let_def h1_def split: sum.splits)
  from Cons.IH [OF rest] show ?case by (simp add: h1)
qed

lemma from_dicts_loop_frame:
  "from_dicts_loop nm cl srt h p = (h', res) \<Longrightarrow>
   name (h' r) = name (h r) \<and> other (h' r) = other (h r)"
proof (induction srt arbitrary: h p)
  case Nil
  then show ?case by simp
next
  case (Cons d srt)
  define h1 where "h1 = (if links (h d) \<noteq> None then h(d := (h d)\<lparr>links := None\<rparr>) else h)"
  have h1: "name (h1 r) = name (h r) \<and> other (h1 r) = other (h r)"
    by (simp add: h1_def)
  show ?case
  proof (cases "if links (h d) \<noteq> None then append_links p (get_links (h d)) [] else Inr []")
    case (Inl e)
    with Cons.prems have "h' = h" by simp
    then show ?thesis by simp
  next
    case (Inr lnks)
    with Cons.prems have
      rest: "from_dicts_loop nm cl srt h1
        (p\<lparr>services := services p @ [Service (length (services p)) cl nm lnks
            (name (h1 d)) (other (h1 d))]\<rparr>) = (h', res)"
      by (simp add: Let_def h1_def)
    from Cons.IH [OF rest] h1 show ?thesis by simp
  qed
qed

lemma from_dicts_frame:
  "from_dicts nm h dicts cl = (h', res) \<Longrightarrow>
   name (h' r) = name (h r) \<and> other (h' r) = other (h r)"
  unfolding from_dicts_def
  by (cases "sort_service_dicts h dicts") (auto dest: from_dicts_loop_frame)

lemma from_config_loop_dicts:
  "from_config_loop config h acc = (h1, dicts) \<Longrightarrow> dicts = acc @ map snd config"
proof (induction config arbitrary: h acc)
  case Nil
  then show ?case by simp
next
  case (Cons a config)
  obtain ka ra where a: "a = (ka, ra)" by (cases a)
  from Cons.prems a have "from_config_loop config (h(ra := (h ra)\<lparr>name := ka\<rparr>))
      (acc @ [ra]) = (h1, dicts)" by simp
  from Cons.IH [OF this] a show ?case by simp
qed

lemma from_config_loop_untouched:
  "from_config_loop config h acc = (h1, dicts) \<Longrightarrow> r \<notin> snd ` set config \<Longrightarrow> h1 r = h r"
  by (induction config arbitrary: h acc) auto

lemma from_config_loop_name:
  "from_config_loop config h acc = (h1, dicts) \<Longrightarrow> (k, r) \<in> set config \<Longrightarrow>
   (\<exists>k'. (k', r) \<in> set config \<and> h1 r = (h r)\<lparr>name := k'\<rparr>)"
proof (induction config arbitrary: h acc k)
  case Nil
  then show ?case by simp
next
  case (Cons a config)
  obtain ka ra where a: "a = (ka, ra)" by (cases a)
  from Cons.prems(1) a have rest: "from_config_loop config (h(ra := (h ra)\<lparr>name := ka\<rparr>))
      (acc @ [ra]) = (h1, dicts)" by simp
  show ?case
  proof (cases "r \<in> snd ` set config")
    case True
    then obtain k2 where "(k2, r) \<in> set config" by auto
    from Cons.IH [OF rest this] obtain k' where
      "(k', r) \<in> set config" "h1 r = ((h(ra := (h ra)\<lparr>name := ka\<rparr>)) r)\<lparr>name := k'\<rparr>"
      by blast
    then show ?thesis by (cases "r = ra") auto
  next
    case False
    with Cons.prems(2) a have "r = ra" "k = ka" by force+
    with from_config_loop_untouched [OF rest False] a show ?thesis by auto
  qed
qed

lemma distinct_snd_key:
  "distinct (map snd config) \<Longrightarrow> (k, r) \<in> set config \<Longrightarrow> (k', r) \<in> set config \<Longrightarrow> k' = k"
proof (induction config)
  case Nil
  then show ?case by simp
next
  case (Cons a config)
  then show ?case by (cases a) force
qed

text \<open>
  C10. The claim: \<^verbatim>\<open>from_dicts\<close> deletes the key \<^verbatim>\<open>links\<close> from every dict it is
  given that has the key, and \<^verbatim>\<open>from_config\<close> writes the key \<^verbatim>\<open>name\<close> into every
  config entry.
  In \<open>shadow_store\<close> two dicts have the name \<open>A\<close>. The sort looks \<open>A\<close> up by name,
  finds the first, and returns an order without the second; the project is built, and
  the second dict keeps its \<^verbatim>\<open>links\<close> key.
\<close>

theorem from_dicts_deletes_links_counterexample:
  "snd (from_dicts ''p'' shadow_store [0, 1, 2] ())
     = Inr \<lparr>project_name = ''p'', services = [service_A, service_B], client = ()\<rparr>
   \<and> links (shadow_store 1) = Some []
   \<and> links (fst (from_dicts ''p'' shadow_store [0, 1, 2] ()) 1) = Some []"
  by code_simp

text \<open>
  C10, amended. When the names of the dicts are unique and \<^verbatim>\<open>from_dicts\<close> returns a
  project, every dict it was given is afterwards the dict it was without the key
  \<^verbatim>\<open>links\<close>, no other dict has changed, and the store is not the one before the call
  when some dict had the key. \<^verbatim>\<open>from_config\<close> leaves in every config entry, as its
  \<^verbatim>\<open>name\<close>, a key under which the config holds the entry: its own key, when no two
  keys hold the same dict; this whether construction then succeeds or not.
\<close>

theorem from_dicts_deletes_links:
  "(unique_names h dicts \<and> from_dicts nm h dicts cl = (h', Inr p) \<longrightarrow>
      (\<forall>r \<in> set dicts. h' r = (h r)\<lparr>links := None\<rparr>)
      \<and> (\<forall>r. r \<notin> set dicts \<longrightarrow> h' r = h r)
      \<and> ((\<exists>r \<in> set dicts. links (h r) \<noteq> None) \<longrightarrow> h' \<noteq> h))
   \<and> (from_config nm' h0 config cl' = (h2, res) \<longrightarrow>
        (\<forall>(k, r) \<in> set config. \<exists>k'. (k', r) \<in> set config \<and> name (h2 r) = k')
        \<and> (distinct (map snd config) \<longrightarrow> (\<forall>(k, r) \<in> set config. name (h2 r) = k)))"
proof (intro conjI impI)
  assume a: "unique_names h dicts \<and> from_dicts nm h dicts cl = (h', Inr p)"
  then obtain srt where srt: "sort_service_dicts h dicts = Inr srt"
    and loop: "from_dicts_loop nm cl srt h \<lparr>project_name = nm, services = [], client = cl\<rparr>
        = (h', Inr p)"
    by (cases "sort_service_dicts h dicts") (auto simp: from_dicts_def)
  from a srt have set: "set srt = set dicts"
    using sort_service_dicts_set by blast
  note st = from_dicts_loop_store [OF loop]
  show 1: "\<forall>r \<in> set dicts. h' r = (h r)\<lparr>links := None\<rparr>"
    using st set by simp
  show "\<forall>r. r \<notin> set dicts \<longrightarrow> h' r = h r"
    using st set by simp
  {
    assume "\<exists>r \<in> set dicts. links (h r) \<noteq> None"
    then obtain r where r: "r \<in> set dicts" "links (h r) \<noteq> None" by blast
    with 1 have "links (h' r) = None" by simp
    with r(2) show "h' \<noteq> h" by auto
  }
next
  assume a: "from_config nm' h0 config cl' = (h2, res)"
  obtain h1 ds where loop: "from_config_loop config h0 [] = (h1, ds)"
    by (cases "from_config_loop config h0 []")
  with a have fd: "from_dicts nm' h1 ds cl' = (h2, res)"
    by (simp add: from_config_def)
  have nm: "name (h2 r) = name (h1 r)" for r
    using from_dicts_frame [OF fd] by simp
  show 1: "\<forall>(k, r) \<in> set config. \<exists>k'. (k', r) \<in> set config \<and> name (h2 r) = k'"
  proof (clarify)
    fix k r assume "(k, r) \<in> set config"
    from from_config_loop_name [OF loop this] obtain k' where
      "(k', r) \<in> set config" "h1 r = (h0 r)\<lparr>name := k'\<rparr>" by blast
    then show "\<exists>k'. (k', r) \<in> set config \<and> name (h2 r) = k'"
      using nm [of r] by auto
  qed
  {
    assume d: "distinct (map snd config)"
    show "\<forall>(k, r) \<in> set config. name (h2 r) = k"
    proof (clarify)
      fix k r assume kr: "(k, r) \<in> set config"
      with 1 obtain k' where "(k', r) \<in> set config" "name (h2 r) = k'" by blast
      with distinct_snd_key [OF d kr] show "name (h2 r) = k" by simp
    qed
  }
qed

theorem from_dicts_deletes_links_witness:
  "unique_names chain_store [2, 1, 0]
   \<and> from_dicts ''p'' chain_store [2, 1, 0] ()
       = (fst (from_dicts ''p'' chain_store [2, 1, 0] ()), Inr chain_project)
   \<and> links (chain_store 2) = Some [''B'']
   \<and> fst (from_dicts ''p'' chain_store [2, 1, 0] ()) 2 = (chain_store 2)\<lparr>links := None\<rparr>
   \<and> fst (from_dicts ''p'' chain_store [2, 1, 0] ()) 7 = chain_store 7
   \<and> fst (from_dicts ''p'' chain_store [2, 1, 0] ()) \<noteq> chain_store
   \<and> distinct (map snd web_config)
   \<and> name (blank_store 1) = []
   \<and> name (fst (from_config ''p'' blank_store web_config ()) 1) = ''web''"
proof -
  have u: "unique_names chain_store [2, 1, 0]" by code_simp
  have "snd (from_dicts ''p'' chain_store [2, 1, 0] ()) = Inr chain_project" by code_simp
  then have f: "from_dicts ''p'' chain_store [2, 1, 0] ()
       = (fst (from_dicts ''p'' chain_store [2, 1, 0] ()), Inr chain_project)"
    by (metis prod.collapse)
  have l: "links (chain_store 2) = Some [''B'']" by (simp add: chain_store_def)
  have d: "distinct (map snd web_config)" by (simp add: web_config_def)
  have m: "(''web'', 1) \<in> set web_config" by (simp add: web_config_def)
  have b: "name (blank_store 1) = []" by (simp add: blank_store_def)
  have c: "from_config ''p'' blank_store web_config ()
      = (fst (from_config ''p'' blank_store web_config ()),
         snd (from_config ''p'' blank_store web_config ()))" by simp
  note T = from_dicts_deletes_links [of chain_store "[2, 1, 0]" "''p''" "()"
      "fst (from_dicts ''p'' chain_store [2, 1, 0] ())" chain_project
      "''p''" blank_store web_config "()" "fst (from_config ''p'' blank_store web_config ())"
      "snd (from_config ''p'' blank_store web_config ())"]
  from T u f have t1: "\<forall>r \<in> set [2, 1, 0].
      fst (from_dicts ''p'' chain_store [2, 1, 0] ()) r = (chain_store r)\<lparr>links := None\<rparr>"
    and t2: "\<forall>r. r \<notin> set [2, 1, 0] \<longrightarrow>
      fst (from_dicts ''p'' chain_store [2, 1, 0] ()) r = chain_store r"
    and t3: "(\<exists>r \<in> set [2, 1, 0]. links (chain_store r) \<noteq> None) \<longrightarrow>
      fst (from_dicts ''p'' chain_store [2, 1, 0] ()) \<noteq> chain_store"
    by blast+
  from T c d have t4: "\<forall>(k, r) \<in> set web_config.
      name (fst (from_config ''p'' blank_store web_config ()) r) = k"
    by blast
  from t1 have r1: "fst (from_dicts ''p'' chain_store [2, 1, 0] ()) 2
      = (chain_store 2)\<lparr>links := None\<rparr>" by simp
  from t2 have r2: "fst (from_dicts ''p'' chain_store [2, 1, 0] ()) 7 = chain_store 7" by simp
  from t3 l have r3: "fst (from_dicts ''p'' chain_store [2, 1, 0] ()) \<noteq> chain_store" by simp
  from t4 m have r4: "name (fst (from_config ''p'' blank_store web_config ()) 1) = ''web''"
    by blast
  show ?thesis by (intro conjI u f l r1 r2 r3 d b r4)
qed

end
